theory Spec2Isabelle
  imports Complex_Main "HOL-Library.Sublist"
begin

section \<open>JavaScript strings\<close>

text \<open>
  A JavaScript string is a sequence of code units, modelled as \<^typ>\<open>string\<close>, a list of
  8-bit characters: the queries and subjects covered are those of such characters. A single
  character, as returned by \<open>charAt\<close>, is itself a string: of length one inside the
  string, and the empty string outside of it.
\<close>

definition charAt :: "string \<Rightarrow> nat \<Rightarrow> string" where
  "charAt s i = (if i < length s then [s ! i] else [])"

text \<open>\<open>str.indexOf(v)\<close>: the least offset at which \<open>v\<close> starts in \<open>str\<close>, or \<open>-1\<close>.\<close>

fun indexOf :: "string \<Rightarrow> string \<Rightarrow> int" where
  "indexOf [] v = (if v = [] then 0 else - 1)"
| "indexOf (c # cs) v =
     (if prefix v (c # cs) then 0
      else (let r = indexOf cs v in if r = - 1 then - 1 else r + 1))"

text \<open>\<open>s.substring(start, end)\<close>: both bounds are clamped to \<open>0..length\<close> and swapped
  when out of order.\<close>

definition substring :: "string \<Rightarrow> int \<Rightarrow> int \<Rightarrow> string" where
  "substring s start stop =
     (let len = int (length s);
          a = min (max start 0) len;
          b = min (max stop 0) len;
          lo = min a b;
          hi = max a b
      in take (nat (hi - lo)) (drop (nat lo) s))"

section \<open>Errors\<close>

text \<open>
  Every error of the program is \<open>throw new Error(msg + ' (' + pos + ')')\<close>, raised by
  \<open>InputStream.throw\<close>. The four messages are the four first constructors, each with the
  position; \<open>TypeError\<close> stands for the run-time error of reading a property of \<open>null\<close>.

  A function that can throw returns \<open>Inl (e, s)\<close> for the error \<open>e\<close> thrown in the state
  \<open>s\<close>, or \<open>Inr (x, s)\<close> for the value \<open>x\<close> returned in the state \<open>s\<close>: the objects keep
  what was assigned to them before the throw.
\<close>

record token =
  tok_type :: string
  tok_value :: "string option"

datatype error =
    UnexpectedCharacter string nat
  | UnexpectedToken "token option" nat
  | ExpectingPunctuation string nat
  | MixedOperatorStyle nat
  | TypeError

section \<open>InputStream\<close>

record InputStream =
  pos :: nat
  input :: string

definition new_InputStream :: "string \<Rightarrow> InputStream" where
  "new_InputStream s = \<lparr>pos = 0, input = s\<rparr>"

definition InputStream_next :: "InputStream \<Rightarrow> string \<times> InputStream" where
  "InputStream_next st = (charAt (input st) (pos st), st\<lparr>pos := pos st + 1\<rparr>)"

definition InputStream_peek :: "InputStream \<Rightarrow> string" where
  "InputStream_peek st = charAt (input st) (pos st)"

definition InputStream_eof :: "InputStream \<Rightarrow> bool" where
  "InputStream_eof st = (InputStream_peek st = [])"

definition InputStream_throw :: "(nat \<Rightarrow> error) \<Rightarrow> InputStream \<Rightarrow> (error \<times> InputStream) + 'a" where
  "InputStream_throw msg st = Inl (msg (pos st), st)"

section \<open>TokenStream\<close>

record TokenStream =
  current :: "token option"
  ts_input :: InputStream

definition new_TokenStream :: "string \<Rightarrow> TokenStream" where
  "new_TokenStream s = \<lparr>current = None, ts_input = new_InputStream s\<rparr>"

definition is_ch_whitespace :: "string \<Rightarrow> bool" where
  "is_ch_whitespace ch = (ch = '' '')"

text \<open>\<open>/[a-z0-9]/i.test(ch)\<close>: some character of \<open>ch\<close> is an ASCII letter or digit.\<close>

definition is_ch_term :: "string \<Rightarrow> bool" where
  "is_ch_term ch =
     list_ex (\<lambda>c. let n = (of_char c :: nat)
                 in (97 \<le> n \<and> n \<le> 122) \<or> (65 \<le> n \<and> n \<le> 90) \<or> (48 \<le> n \<and> n \<le> 57)) ch"

definition is_ch_op :: "string \<Rightarrow> bool" where
  "is_ch_op ch = (indexOf ''&|'' ch \<ge> 0)"

definition is_ch_punc :: "string \<Rightarrow> bool" where
  "is_ch_punc ch = (indexOf ''()'' ch \<ge> 0)"

text \<open>The loop of \<open>read_escaped\<close>, on the variables \<open>escaped\<close> and \<open>str\<close>.\<close>

function read_escaped_loop :: "string \<Rightarrow> bool \<Rightarrow> string \<Rightarrow> InputStream \<Rightarrow> string \<times> InputStream" where
  "read_escaped_loop end escaped str st =
     (if \<not> InputStream_eof st then
        (let ch = fst (InputStream_next st); st' = snd (InputStream_next st) in
         if escaped then read_escaped_loop end False (str @ ch) st'
         else if ch = [CHR 0x5C] then read_escaped_loop end True str st'
         else if ch = end then (str, st')
         else read_escaped_loop end escaped (str @ ch) st')
      else (str, st))"
  by pat_completeness auto
termination
  by (relation "measure (\<lambda>(e, esc, str, st). length (input st) - pos st)")
     (auto simp: InputStream_next_def InputStream_eof_def InputStream_peek_def charAt_def
           split: if_splits)

definition read_escaped :: "string \<Rightarrow> TokenStream \<Rightarrow> string \<times> TokenStream" where
  "read_escaped end ts =
     (let st = snd (InputStream_next (ts_input ts));
          (str, st') = read_escaped_loop end False [] st
      in (str, ts\<lparr>ts_input := st'\<rparr>))"

function read_while_loop :: "(string \<Rightarrow> bool) \<Rightarrow> string \<Rightarrow> InputStream \<Rightarrow> string \<times> InputStream" where
  "read_while_loop predicate str st =
     (if \<not> InputStream_eof st \<and> predicate (InputStream_peek st) then
        read_while_loop predicate (str @ fst (InputStream_next st)) (snd (InputStream_next st))
      else (str, st))"
  by pat_completeness auto
termination
  by (relation "measure (\<lambda>(p, str, st). length (input st) - pos st)")
     (auto simp: InputStream_next_def InputStream_eof_def InputStream_peek_def charAt_def
           split: if_splits)

definition read_while :: "(string \<Rightarrow> bool) \<Rightarrow> TokenStream \<Rightarrow> string \<times> TokenStream" where
  "read_while predicate ts =
     (let (str, st') = read_while_loop predicate [] (ts_input ts)
      in (str, ts\<lparr>ts_input := st'\<rparr>))"

definition read_string :: "TokenStream \<Rightarrow> token \<times> TokenStream" where
  "read_string ts =
     (let (v, ts') = read_escaped [CHR 0x22] ts
      in (\<lparr>tok_type = ''term'', tok_value = Some v\<rparr>, ts'))"

definition read_term :: "TokenStream \<Rightarrow> token \<times> TokenStream" where
  "read_term ts =
     (let (v, ts') = read_while is_ch_term ts
      in (\<lparr>tok_type = ''term'', tok_value = Some v\<rparr>, ts'))"

definition TokenStream_throw :: "(nat \<Rightarrow> error) \<Rightarrow> TokenStream \<Rightarrow> (error \<times> TokenStream) + 'a" where
  "TokenStream_throw msg ts =
     (case InputStream_throw msg (ts_input ts) of
        Inl (e, st) \<Rightarrow> Inl (e, ts\<lparr>ts_input := st\<rparr>)
      | Inr x \<Rightarrow> Inr x)"

text \<open>\<open>read_next\<close> returns a token, or \<open>null\<close> (here \<open>None\<close>) at the end of the input.\<close>

definition read_next :: "TokenStream \<Rightarrow> (error \<times> TokenStream) + (token option \<times> TokenStream)" where
  "read_next ts =
     (let ts1 = snd (read_while is_ch_whitespace ts) in
      if InputStream_eof (ts_input ts1) then Inr (None, ts1)
      else
        (let ch = InputStream_peek (ts_input ts1) in
         if ch = [CHR 0x22] then
           (let (tok, ts2) = read_string ts1 in Inr (Some tok, ts2))
         else if ch = ''!'' then
           (let (c, st) = InputStream_next (ts_input ts1)
            in Inr (Some \<lparr>tok_type = c, tok_value = None\<rparr>, ts1\<lparr>ts_input := st\<rparr>))
         else if is_ch_term ch then
           (let (tok, ts2) = read_term ts1 in Inr (Some tok, ts2))
         else if is_ch_op ch then
           (let (c, st) = InputStream_next (ts_input ts1)
            in Inr (Some \<lparr>tok_type = c, tok_value = None\<rparr>, ts1\<lparr>ts_input := st\<rparr>))
         else if is_ch_punc ch then
           (let (c, st) = InputStream_next (ts_input ts1)
            in Inr (Some \<lparr>tok_type = ''punc'', tok_value = Some c\<rparr>, ts1\<lparr>ts_input := st\<rparr>))
         else TokenStream_throw (UnexpectedCharacter ch) ts1))"

text \<open>\<open>this.current || (this.current = this.read_next())\<close>: a token object is always truthy.
  When \<open>read_next\<close> throws, nothing is assigned to \<open>current\<close>.\<close>

definition TokenStream_peek :: "TokenStream \<Rightarrow> (error \<times> TokenStream) + (token option \<times> TokenStream)" where
  "TokenStream_peek ts =
     (case current ts of
        Some tok \<Rightarrow> Inr (Some tok, ts)
      | None \<Rightarrow>
          (case read_next ts of
             Inl e \<Rightarrow> Inl e
           | Inr (t, ts') \<Rightarrow> Inr (t, ts'\<lparr>current := t\<rparr>)))"

definition TokenStream_next :: "TokenStream \<Rightarrow> (error \<times> TokenStream) + (token option \<times> TokenStream)" where
  "TokenStream_next ts =
     (let tok = current ts; ts1 = ts\<lparr>current := None\<rparr> in
      case tok of
        Some t \<Rightarrow> Inr (Some t, ts1)
      | None \<Rightarrow> read_next ts1)"

definition TokenStream_eof :: "TokenStream \<Rightarrow> (error \<times> TokenStream) + (bool \<times> TokenStream)" where
  "TokenStream_eof ts =
     (case TokenStream_peek ts of
        Inl e \<Rightarrow> Inl e
      | Inr (t, ts') \<Rightarrow> Inr (t = None, ts'))"

section \<open>AST nodes and the match context\<close>

text \<open>
  The three node classes \<open>Term\<close>, \<open>Not\<close> and \<open>Op\<close>. \<open>Term\<close> keeps its value and the tolerance computed by its
  constructor; \<open>Op\<close> keeps the operator's token type (\<open>&\<close> or \<open>|\<close>) as a string.
\<close>

datatype node =
    Term string int
  | Not_node node
  | Op string node node

text \<open>\<open>Math.ceil(value.length / 4)\<close>.\<close>

definition tolerance_of :: "string \<Rightarrow> int" where
  "tolerance_of v = (int (length v) + 3) div 4"

definition new_Term :: "string \<Rightarrow> node" where
  "new_Term v = Term v (tolerance_of v)"

record entry =
  len :: int
  gap :: int

text \<open>
  A \<open>Context\<close> object starts without properties. \<open>get\<close> is only ever called with the
  key \<open>term\<close>, and \<open>Interpreter.exec\<close> sets \<open>success\<close>: these are its two possible
  properties, each absent (\<open>None\<close>) until first written.
\<close>

record Context =
  ctx_term :: "(int \<rightharpoonup> entry) option"
  ctx_success :: "bool option"

definition new_Context :: Context where
  "new_Context = \<lparr>ctx_term = None, ctx_success = None\<rparr>"

text \<open>\<open>get('term')\<close>: creates the empty object when the property is absent, and returns
  the object (an object is always truthy, so an existing one is never replaced).\<close>

definition Context_get :: "Context \<Rightarrow> (int \<rightharpoonup> entry) \<times> Context" where
  "Context_get ctx =
     (case ctx_term ctx of
        None \<Rightarrow> (Map.empty, ctx\<lparr>ctx_term := Some Map.empty\<rparr>)
      | Some m \<Rightarrow> (m, ctx))"

text \<open>\<open>Term.match(str, value, context)\<close>, with \<open>this.value\<close> as first argument. The
  assignment \<open>context.get('term')[index] = {...}\<close> updates the object held by the context.\<close>

definition Term_match :: "string \<Rightarrow> string \<Rightarrow> string \<Rightarrow> Context \<Rightarrow> bool \<times> Context" where
  "Term_match this_value str v ctx =
     (let index = indexOf str v in
      if index = - 1 then (False, ctx)
      else
        (let (m, ctx') = Context_get ctx
         in (True, ctx'\<lparr>ctx_term :=
                    Some (m(index \<mapsto> \<lparr>len = int (length v),
                                        gap = int (length this_value) - int (length v)\<rparr>))\<rparr>)))"

text \<open>
  \<open>Term.test\<close>, the same method in the other version of the program among the sources
  (the one whose \<open>Term.exec\<close> calls \<open>this.test\<close>): there the entry is written only when
  \<open>context.term[index]\<close> is not set yet.
\<close>

definition Term_test :: "string \<Rightarrow> string \<Rightarrow> string \<Rightarrow> Context \<Rightarrow> bool \<times> Context" where
  "Term_test this_value str v ctx =
     (let index = indexOf str v in
      if index = - 1 then (False, ctx)
      else
        (let m = (case ctx_term ctx of None \<Rightarrow> Map.empty | Some m \<Rightarrow> m);
             m' = (if m index = None
                   then m(index \<mapsto> \<lparr>len = int (length v),
                                        gap = int (length this_value) - int (length v)\<rparr>)
                   else m)
         in (True, ctx\<lparr>ctx_term := Some m'\<rparr>)))"

text \<open>The loop of \<open>Term.exec\<close>, on the variables \<open>gap\<close> and \<open>match\<close>.\<close>

function Term_exec_loop :: "string \<Rightarrow> int \<Rightarrow> string \<Rightarrow> int \<Rightarrow> bool \<Rightarrow> Context \<Rightarrow> bool \<times> Context" where
  "Term_exec_loop this_value tolerance str g match ctx =
     (if g \<le> tolerance \<and> \<not> match then
        (let v = substring this_value 0 (int (length this_value) - g);
             r = Term_match this_value str v ctx
         in Term_exec_loop this_value tolerance str (g + 1) (fst r) (snd r))
      else (match, ctx))"
  by pat_completeness auto
termination
  by (relation "measure (\<lambda>(v, t, s, g, m, c). nat (t + 1 - g))") auto

fun exec :: "node \<Rightarrow> string \<Rightarrow> Context \<Rightarrow> bool \<times> Context" where
  "exec (Term v tolerance) str ctx = Term_exec_loop v tolerance str 0 False ctx"
| "exec (Not_node n) str ctx = (let (b, ctx') = exec n str ctx in (\<not> b, ctx'))"
| "exec (Op t l r) str ctx =
     (let (left, ctx1) = exec l str ctx;
          (right, ctx2) = exec r str ctx1
      in (if t = ''&'' then left \<and> right else left \<or> right, ctx2))"

section \<open>Parser\<close>

text \<open>\<open>is_lazy\<close> is not set by the constructor: it is \<open>undefined\<close> (\<open>None\<close>) until the
  first implicit or explicit operator, and \<open>undefined == false\<close>, \<open>undefined == true\<close> are
  both false.\<close>

record Parser =
  p_input :: TokenStream
  is_lazy :: "bool option"

definition new_Parser :: "string \<Rightarrow> Parser" where
  "new_Parser s = \<lparr>p_input = new_TokenStream s, is_lazy = None\<rparr>"

definition precedence :: "string \<Rightarrow> nat option" where
  "precedence t = (if t = ''|'' then Some 1 else if t = ''&'' then Some 2 else None)"

text \<open>The calls \<open>this.input.peek()\<close>, \<open>this.input.next()\<close> and \<open>this.input.eof()\<close> of
  the parser, with the token stream's new state stored back.\<close>

definition input_peek :: "Parser \<Rightarrow> (error \<times> Parser) + (token option \<times> Parser)" where
  "input_peek p =
     (case TokenStream_peek (p_input p) of
        Inl (e, ts) \<Rightarrow> Inl (e, p\<lparr>p_input := ts\<rparr>)
      | Inr (t, ts) \<Rightarrow> Inr (t, p\<lparr>p_input := ts\<rparr>))"

definition input_next :: "Parser \<Rightarrow> (error \<times> Parser) + (token option \<times> Parser)" where
  "input_next p =
     (case TokenStream_next (p_input p) of
        Inl (e, ts) \<Rightarrow> Inl (e, p\<lparr>p_input := ts\<rparr>)
      | Inr (t, ts) \<Rightarrow> Inr (t, p\<lparr>p_input := ts\<rparr>))"

definition input_eof :: "Parser \<Rightarrow> (error \<times> Parser) + (bool \<times> Parser)" where
  "input_eof p =
     (case TokenStream_eof (p_input p) of
        Inl (e, ts) \<Rightarrow> Inl (e, p\<lparr>p_input := ts\<rparr>)
      | Inr (b, ts) \<Rightarrow> Inr (b, p\<lparr>p_input := ts\<rparr>))"

definition input_throw :: "(nat \<Rightarrow> error) \<Rightarrow> Parser \<Rightarrow> (error \<times> Parser) + 'a" where
  "input_throw msg p =
     (case TokenStream_throw msg (p_input p) of
        Inl (e, ts) \<Rightarrow> Inl (e, p\<lparr>p_input := ts\<rparr>)
      | Inr x \<Rightarrow> Inr x)"

definition unexpected :: "Parser \<Rightarrow> (error \<times> Parser) + 'a" where
  "unexpected p =
     (case input_peek p of
        Inl e \<Rightarrow> Inl e
      | Inr (t, p') \<Rightarrow> input_throw (UnexpectedToken t) p')"

text \<open>The \<open>is_\<close> tests return the token or a falsy value; only \<open>is_op\<close>'s token is used
  by its caller, the others are read as booleans.\<close>

definition is_punc :: "string \<Rightarrow> Parser \<Rightarrow> (error \<times> Parser) + (bool \<times> Parser)" where
  "is_punc ch p =
     (case input_peek p of
        Inl e \<Rightarrow> Inl e
      | Inr (None, p') \<Rightarrow> Inr (False, p')
      | Inr (Some tok, p') \<Rightarrow>
          Inr (tok_type tok = ''punc'' \<and> (ch = [] \<or> tok_value tok = Some ch), p'))"

definition is_op :: "Parser \<Rightarrow> (error \<times> Parser) + (token option \<times> Parser)" where
  "is_op p =
     (case input_peek p of
        Inl e \<Rightarrow> Inl e
      | Inr (None, p') \<Rightarrow> Inr (None, p')
      | Inr (Some tok, p') \<Rightarrow>
          Inr (if tok_type tok = ''&'' \<or> tok_type tok = ''|'' then Some tok else None, p'))"

definition is_not :: "Parser \<Rightarrow> (error \<times> Parser) + (bool \<times> Parser)" where
  "is_not p =
     (case input_peek p of
        Inl e \<Rightarrow> Inl e
      | Inr (None, p') \<Rightarrow> Inr (False, p')
      | Inr (Some tok, p') \<Rightarrow> Inr (tok_type tok = ''!'', p'))"

definition is_term :: "Parser \<Rightarrow> (error \<times> Parser) + (bool \<times> Parser)" where
  "is_term p =
     (case input_peek p of
        Inl e \<Rightarrow> Inl e
      | Inr (None, p') \<Rightarrow> Inr (False, p')
      | Inr (Some tok, p') \<Rightarrow> Inr (tok_type tok = ''term'', p'))"

definition skip_punc :: "string \<Rightarrow> Parser \<Rightarrow> (error \<times> Parser) + (unit \<times> Parser)" where
  "skip_punc ch p =
     (case is_punc ch p of
        Inl e \<Rightarrow> Inl e
      | Inr (b, p1) \<Rightarrow>
          if b then
            (case input_next p1 of
               Inl e \<Rightarrow> Inl e
             | Inr (t, p2) \<Rightarrow> Inr ((), p2))
          else input_throw (ExpectingPunctuation ch) p1)"

definition throw_lazy :: "Parser \<Rightarrow> (error \<times> Parser) + 'a" where
  "throw_lazy p = input_throw MixedOperatorStyle p"

definition parse_term :: "Parser \<Rightarrow> (error \<times> Parser) + (node \<times> Parser)" where
  "parse_term p =
     (case input_next p of
        Inl e \<Rightarrow> Inl e
      | Inr (None, p') \<Rightarrow> Inl (TypeError, p')
      | Inr (Some tok, p') \<Rightarrow>
          (case tok_value tok of
             None \<Rightarrow> Inl (TypeError, p')
           | Some v \<Rightarrow> Inr (new_Term v, p')))"

text \<open>
  The recursive descent. The recursion of the source is bounded by the length of the
  input, which the definitions below do not see: each call takes a fuel argument, one less
  for every nested call, and returns \<open>None\<close> when the fuel is used up. \<open>Some (Inl (e, p))\<close>
  is the error thrown and the parser's state at the throw, \<open>Some (Inr (n, p))\<close> the node
  returned and the parser's new state.
\<close>

fun rbind :: "('e + 'a) option \<Rightarrow> ('a \<Rightarrow> ('e + 'b) option) \<Rightarrow> ('e + 'b) option" where
  "rbind None f = None"
| "rbind (Some (Inl e)) f = Some (Inl e)"
| "rbind (Some (Inr x)) f = f x"

text \<open>
  \<open>parse_operand_expr\<close> is the anonymous function that \<open>parse_operand\<close> passes to
  \<open>lazy_operator\<close>, its only caller; \<open>lazy_operator\<close> calls it first.
\<close>

fun parse_operand :: "nat \<Rightarrow> bool \<Rightarrow> Parser \<Rightarrow> (error \<times> Parser + node \<times> Parser) option"
  and lazy_operator :: "nat \<Rightarrow> Parser \<Rightarrow> (error \<times> Parser + node \<times> Parser) option"
  and parse_operand_expr :: "nat \<Rightarrow> Parser \<Rightarrow> (error \<times> Parser + node \<times> Parser) option"
  and parse_operands :: "nat \<Rightarrow> Parser \<Rightarrow> (error \<times> Parser + node \<times> Parser) option"
  and parse_operator :: "nat \<Rightarrow> node \<Rightarrow> nat \<Rightarrow> Parser \<Rightarrow> (error \<times> Parser + node \<times> Parser) option"
  and parse_not :: "nat \<Rightarrow> Parser \<Rightarrow> (error \<times> Parser + node \<times> Parser) option"
where
  "parse_operand 0 parse_op p = None"
| "parse_operand (Suc n) parse_op p =
     (if parse_op then
        rbind (parse_operand n False p) (\<lambda>(left, p1). parse_operator n left 0 p1)
      else lazy_operator n p)"
| "lazy_operator 0 p = None"
| "lazy_operator (Suc n) p =
     rbind (parse_operand_expr n p) (\<lambda>(expr, p1).
     rbind (Some (input_eof p1)) (\<lambda>(at_eof, p2).
       if at_eof then Some (Inr (expr, p2))
       else
     rbind (Some (is_op p2)) (\<lambda>(tok, p3).
       if tok \<noteq> None then Some (Inr (expr, p3))
       else
     rbind (Some (is_punc '')'' p3)) (\<lambda>(punc, p4).
       if punc then Some (Inr (expr, p4))
       else if is_lazy p4 = Some False then Some (throw_lazy p4)
       else
         (let p5 = p4\<lparr>is_lazy := Some True\<rparr> in
          rbind (parse_operand n True p5) (\<lambda>(right, p6).
            Some (Inr (Op ''|'' expr right, p6))))))))"
| "parse_operand_expr 0 p = None"
| "parse_operand_expr (Suc n) p =
     rbind (Some (is_not p)) (\<lambda>(b1, p1).
       if b1 then parse_not n p1
       else
     rbind (Some (is_punc ''('' p1)) (\<lambda>(b2, p2).
       if b2 then parse_operands n p2
       else
     rbind (Some (is_term p2)) (\<lambda>(b3, p3).
       if b3 then Some (parse_term p3)
       else Some (unexpected p3))))"
| "parse_operands 0 p = None"
| "parse_operands (Suc n) p =
     rbind (Some (skip_punc ''('' p)) (\<lambda>(u1, p1).
     rbind (parse_operand n True p1) (\<lambda>(operands, p2).
     rbind (Some (skip_punc '')'' p2)) (\<lambda>(u2, p3).
       Some (Inr (operands, p3)))))"
| "parse_operator 0 left prec p = None"
| "parse_operator (Suc n) left prec p =
     rbind (Some (is_op p)) (\<lambda>(tok, p1).
       case tok of
         None \<Rightarrow> Some (Inr (left, p1))
       | Some t \<Rightarrow>
           if is_lazy p1 = Some True then Some (throw_lazy p1)
           else
             (let p2 = p1\<lparr>is_lazy := Some False\<rparr> in
              case precedence (tok_type t) of
                None \<Rightarrow> Some (Inr (left, p2))
              | Some nxt \<Rightarrow>
                  if nxt > prec then
                    rbind (Some (input_next p2)) (\<lambda>(t', p3).
                    rbind (parse_operand n False p3) (\<lambda>(operand, p4).
                    rbind (parse_operator n operand nxt p4) (\<lambda>(right, p5).
                      parse_operator n (Op (tok_type t) left right) prec p5)))
                  else Some (Inr (left, p2))))"
| "parse_not 0 p = None"
| "parse_not (Suc n) p =
     rbind (Some (input_next p)) (\<lambda>(t, p1).
     rbind (parse_operand n False p1) (\<lambda>(v, p2).
       Some (Inr (Not_node v, p2))))"

section \<open>Interpreter\<close>

record Interpreter =
  i_input :: Parser
  i_value :: "node option"

definition new_Interpreter :: "string \<Rightarrow> Interpreter" where
  "new_Interpreter s = \<lparr>i_input = new_Parser s, i_value = None\<rparr>"

text \<open>\<open>this.value || (this.value = this.input.parse_operand(true))\<close>; a node is an
  object, hence truthy. When the parser throws, nothing is assigned to \<open>value\<close>, and the
  parser and its token stream stay as the throw left them. The \<open>console.log\<close> of the tree
  is not modelled.\<close>

definition compile :: "nat \<Rightarrow> Interpreter \<Rightarrow> (error \<times> Interpreter + node \<times> Interpreter) option" where
  "compile fuel it =
     (case i_value it of
        Some v \<Rightarrow> Some (Inr (v, it))
      | None \<Rightarrow>
          (case parse_operand fuel True (i_input it) of
             None \<Rightarrow> None
           | Some (Inl (e, p)) \<Rightarrow> Some (Inl (e, it\<lparr>i_input := p\<rparr>))
           | Some (Inr (v, p)) \<Rightarrow> Some (Inr (v, it\<lparr>i_input := p, i_value := Some v\<rparr>))))"

definition Interpreter_exec :: "nat \<Rightarrow> string \<Rightarrow> Interpreter \<Rightarrow> (error \<times> Interpreter + Context \<times> Interpreter) option" where
  "Interpreter_exec fuel str it =
     (let context = new_Context in
      rbind (compile fuel it) (\<lambda>(root, it').
        (let (success, context') = exec root str context
         in Some (Inr (context'\<lparr>ctx_success := Some success\<rparr>, it')))))"

section \<open>Notions used to state the properties\<close>

text \<open>The result \<open>b\<close> extends \<open>a\<close>: whatever \<open>a\<close> returns within its fuel, \<open>b\<close> returns.\<close>

definition le_res :: "'a option \<Rightarrow> 'a option \<Rightarrow> bool" where
  "le_res a b = (\<forall>r. a = Some r \<longrightarrow> b = Some r)"

text \<open>
  The words of the specification of \<open>Term.exec\<close>: the candidate for a gap is the value
  without its last \<open>gap\<close> characters; the first occurrence of a candidate is the least
  offset at which it starts; an entry is recorded in the context's \<open>term\<close> object
  (created when absent) at an offset, replacing what was there.
\<close>

definition candidate :: "string \<Rightarrow> int \<Rightarrow> string" where
  "candidate v g = take (nat (int (length v) - g)) v"

definition first_occurrence :: "string \<Rightarrow> string \<Rightarrow> nat \<Rightarrow> bool" where
  "first_occurrence c s k = (prefix c (drop k s) \<and> (\<forall>j<k. \<not> prefix c (drop j s)))"

definition record_term :: "Context \<Rightarrow> int \<Rightarrow> entry \<Rightarrow> Context" where
  "record_term ctx k e =
     ctx\<lparr>ctx_term := Some ((case ctx_term ctx of None \<Rightarrow> Map.empty | Some m \<Rightarrow> m)(k \<mapsto> e))\<rparr>"


text \<open>The interpreter after a successful \<open>compile\<close> of the query \<open>q\<close>: the input read up to
  position \<open>n\<close>, no token buffered, and the tree stored.\<close>

definition compiled :: "string \<Rightarrow> nat \<Rightarrow> bool option \<Rightarrow> node \<Rightarrow> Interpreter" where
  "compiled q n lazy tree =
     \<lparr>i_input = \<lparr>p_input = \<lparr>current = None, ts_input = \<lparr>pos = n, input = q\<rparr>\<rparr>, is_lazy = lazy\<rparr>,
      i_value = Some tree\<rparr>"

text \<open>
  The words of the specification of a quoted term, on the characters after the opening
  quote: the value, and how many characters are consumed. A backslash is dropped and the
  character after it taken as it is; a quote not preceded by a backslash ends the term and
  is consumed; so does the end of the input.
\<close>

fun unescape :: "string \<Rightarrow> string \<times> nat" where
  "unescape [] = ([], 0)"
| "unescape (c # cs) =
     (if c = CHR 0x5C then
        (case cs of
           [] \<Rightarrow> ([], 1)
         | d # ds \<Rightarrow> (let (v, n) = unescape ds in (d # v, n + 2)))
      else if c = CHR 0x22 then ([], 1)
      else (let (v, n) = unescape cs in (c # v, n + 1)))"

text \<open>
  The test of \<open>lazy_operator\<close> on the token after an operand: the end of the input, an
  explicit operator or a closing parenthesis ends the operand.
\<close>

definition ends_operand :: "token option \<Rightarrow> bool" where
  "ends_operand tok =
     (case tok of
        None \<Rightarrow> True
      | Some t \<Rightarrow>
          tok_type t = ''&'' \<or> tok_type t = ''|'' \<or>
          (tok_type t = ''punc'' \<and> tok_value t = Some '')''))"

text \<open>A parser on the query \<open>q\<close>, read up to position \<open>n\<close>, with a buffered token or none.\<close>

definition parser_at :: "string \<Rightarrow> nat \<Rightarrow> token option \<Rightarrow> bool option \<Rightarrow> Parser" where
  "parser_at q n cur lazy =
     \<lparr>p_input = \<lparr>current = cur, ts_input = \<lparr>pos = n, input = q\<rparr>\<rparr>, is_lazy = lazy\<rparr>"

text \<open>The interpreter after a \<open>compile\<close> that threw: the parser as the throw left it, and no
  tree stored.\<close>

definition failed :: "string \<Rightarrow> nat \<Rightarrow> token option \<Rightarrow> bool option \<Rightarrow> Interpreter" where
  "failed q n cur lazy = \<lparr>i_input = parser_at q n cur lazy, i_value = None\<rparr>"

text \<open>Every successful result leaves the flag \<open>is_lazy\<close> set to \<open>b\<close>.\<close>

definition res_lazy :: "bool \<Rightarrow> (error \<times> Parser + node \<times> Parser) option \<Rightarrow> bool" where
  "res_lazy b r = (\<forall>e p'. r = Some (Inr (e, p')) \<longrightarrow> is_lazy p' = Some b)"

text \<open>The tree holds an operator node, built by \<open>lazy_operator\<close> or \<open>parse_operator\<close>.\<close>

fun has_op :: "node \<Rightarrow> bool" where
  "has_op (Term v t) = False"
| "has_op (Not_node n) = has_op n"
| "has_op (Op t l r) = True"

text \<open>Every successful result whose tree holds an operator node leaves the flag \<open>is_lazy\<close>
  set.\<close>

definition res_set :: "(error \<times> Parser + node \<times> Parser) option \<Rightarrow> bool" where
  "res_set r = (\<forall>e p'. r = Some (Inr (e, p')) \<longrightarrow> has_op e \<longrightarrow> is_lazy p' \<noteq> None)"

text \<open>The query of the program's own run, \<open>!abc | "defg ghij"\<close>.\<close>

definition demo_query :: string where
  "demo_query =
     [CHR ''!'', CHR ''a'', CHR ''b'', CHR ''c'', CHR '' '', CHR ''|'', CHR '' '', CHR 0x22,
      CHR ''d'', CHR ''e'', CHR ''f'', CHR ''g'', CHR '' '', CHR ''g'', CHR ''h'', CHR ''i'',
      CHR ''j'', CHR 0x22]"

section \<open>Fuel\<close>

lemmas parser_simps = parse_operand.simps(2) lazy_operator.simps(2) parse_operand_expr.simps(2)
  parse_operands.simps(2) parse_operator.simps(2) parse_not.simps(2)

declare parser_simps [simp del]

declare Term_exec_loop.simps [simp del] read_escaped_loop.simps [simp del]
  read_while_loop.simps [simp del]

text \<open>More fuel never changes a result: the fuel only bounds the depth of the recursion.\<close>

lemma le_res_refl: "le_res a a" by (simp add: le_res_def)

lemma rbind_le: "le_res m m' \<Longrightarrow> (\<And>x. le_res (f x) (f' x)) \<Longrightarrow> le_res (rbind m f) (rbind m' f')"
  unfolding le_res_def
  apply (cases m)
   apply simp
  subgoal for a by (cases a) auto
  done


lemma fuel_Suc:
  "(\<forall>b p. le_res (parse_operand n b p) (parse_operand (Suc n) b p)) \<and>
   (\<forall>p. le_res (lazy_operator n p) (lazy_operator (Suc n) p)) \<and>
   (\<forall>p. le_res (parse_operand_expr n p) (parse_operand_expr (Suc n) p)) \<and>
   (\<forall>p. le_res (parse_operands n p) (parse_operands (Suc n) p)) \<and>
   (\<forall>l prec p. le_res (parse_operator n l prec p) (parse_operator (Suc n) l prec p)) \<and>
   (\<forall>p. le_res (parse_not n p) (parse_not (Suc n) p))"
proof (induction n)
  case 0
  show ?case by (simp add: le_res_def)
next
  case (Suc n)
  note IH = Suc [rule_format]
  have IH1: "\<And>b p. le_res (parse_operand n b p) (parse_operand (Suc n) b p)"
   and IH2: "\<And>p. le_res (lazy_operator n p) (lazy_operator (Suc n) p)"
   and IH3: "\<And>p. le_res (parse_operand_expr n p) (parse_operand_expr (Suc n) p)"
   and IH4: "\<And>p. le_res (parse_operands n p) (parse_operands (Suc n) p)"
   and IH5: "\<And>l prec p. le_res (parse_operator n l prec p) (parse_operator (Suc n) l prec p)"
   and IH6: "\<And>p. le_res (parse_not n p) (parse_not (Suc n) p)"
    using Suc by blast+
  note intros = rbind_le le_res_refl IH1 IH2 IH3 IH4 IH5 IH6
  have a: "le_res (parse_operand (Suc n) b p) (parse_operand (Suc (Suc n)) b p)" for b p
    by (simp only: parse_operand.simps(2)[of "Suc n" b p] parse_operand.simps(2)[of n b p])
       (auto intro!: intros)
  have b: "le_res (lazy_operator (Suc n) p) (lazy_operator (Suc (Suc n)) p)" for p
    by (simp only: lazy_operator.simps(2)[of "Suc n" p] lazy_operator.simps(2)[of n p])
       (auto intro!: intros simp: Let_def)
  have c: "le_res (parse_operand_expr (Suc n) p) (parse_operand_expr (Suc (Suc n)) p)" for p
    by (simp only: parse_operand_expr.simps(2)[of "Suc n" p] parse_operand_expr.simps(2)[of n p])
       (auto intro!: intros)
  have d: "le_res (parse_operands (Suc n) p) (parse_operands (Suc (Suc n)) p)" for p
    by (simp only: parse_operands.simps(2)[of "Suc n" p] parse_operands.simps(2)[of n p])
       (auto intro!: intros)
  have e: "le_res (parse_operator (Suc n) l prec p) (parse_operator (Suc (Suc n)) l prec p)" for l prec p
    by (simp only: parse_operator.simps(2)[of "Suc n" l prec p] parse_operator.simps(2)[of n l prec p])
       (auto intro!: intros simp: Let_def split: option.splits)
  have f: "le_res (parse_not (Suc n) p) (parse_not (Suc (Suc n)) p)" for p
    by (simp only: parse_not.simps(2)[of "Suc n" p] parse_not.simps(2)[of n p])
       (auto intro!: intros)
  show ?case using a b c d e f by blast
qed

lemma fuel_add: "parse_operand n b p = Some r \<Longrightarrow> parse_operand (n + k) b p = Some r"
proof (induction k)
  case 0 then show ?case by simp
next
  case (Suc k)
  then show ?case using fuel_Suc [of "n + k"] by (simp add: le_res_def)
qed


section \<open>Substring search and the loop of \<open>Term.exec\<close>\<close>

lemma indexOf_ge: "- 1 \<le> indexOf s v"
  by (induction s) (auto simp: Let_def)

lemma indexOf_le: "indexOf s v \<le> int (length s)"
  by (induction s) (auto simp: Let_def)

lemma indexOf_none: "indexOf s v = - 1 \<longleftrightarrow> \<not> sublist v s"
proof (induction s)
  case Nil
  show ?case by simp
next
  case (Cons c cs)
  have "- 1 \<le> indexOf cs v" by (rule indexOf_ge)
  then show ?case using Cons
    by (auto simp: Let_def sublist_Cons_right)
qed

lemma indexOf_first:
  "indexOf s v \<noteq> - 1 \<Longrightarrow>
     prefix v (drop (nat (indexOf s v)) s) \<and> (\<forall>j < nat (indexOf s v). \<not> prefix v (drop j s))"
proof (induction s)
  case Nil
  then show ?case by (simp split: if_splits)
next
  case (Cons c cs)
  show ?case
  proof (cases "prefix v (c # cs)")
    case True
    then show ?thesis by simp
  next
    case False
    with Cons.prems have ne: "indexOf cs v \<noteq> - 1" by (auto simp: Let_def split: if_splits)
    have ge: "0 \<le> indexOf cs v" using indexOf_ge [of cs v] ne by arith
    have eq: "indexOf (c # cs) v = indexOf cs v + 1" using False ne by (simp add: Let_def)
    have n: "nat (indexOf cs v + 1) = Suc (nat (indexOf cs v))" using ge by simp
    from Cons.IH [OF ne] have IH1: "prefix v (drop (nat (indexOf cs v)) cs)"
      and IH2: "\<And>j. j < nat (indexOf cs v) \<Longrightarrow> \<not> prefix v (drop j cs)" by auto
    show ?thesis unfolding eq n
    proof (intro conjI allI impI)
      show "prefix v (drop (Suc (nat (indexOf cs v))) (c # cs))" using IH1 by simp
    next
      fix j assume "j < Suc (nat (indexOf cs v))"
      then show "\<not> prefix v (drop j (c # cs))"
        using False IH2 by (cases j) auto
    qed
  qed
qed

lemma substring0: "substring v 0 e = take (nat e) v"
  by (auto simp: substring_def Let_def min_def max_def)

lemma loop_True: "Term_exec_loop v tol s g True ctx = (True, ctx)"
  by (subst Term_exec_loop.simps) simp

lemma loop_step: 
  "g \<le> tol \<Longrightarrow> Term_exec_loop v tol s g False ctx =
     (if indexOf s (take (nat (int (length v) - g)) v) = - 1 then Term_exec_loop v tol s (g + 1) False ctx
      else Term_match v s (take (nat (int (length v) - g)) v) ctx)"
  by (subst Term_exec_loop.simps) (simp add: substring0 Term_match_def Let_def split_beta loop_True)

lemma loop_stop: "\<not> g \<le> tol \<Longrightarrow> Term_exec_loop v tol s g False ctx = (False, ctx)"
  by (subst Term_exec_loop.simps) simp

lemma tolerance_of_ceiling: "tolerance_of v = \<lceil>real (length v) / 4\<rceil>"
  unfolding tolerance_of_def by linarith

lemma tolerance_of_le: "tolerance_of v \<le> int (length v)"
  unfolding tolerance_of_def by linarith

lemma tolerance_of_ge: "0 \<le> tolerance_of v"
  unfolding tolerance_of_def by linarith

lemma Term_match_found:
  "indexOf s c \<noteq> - 1 \<Longrightarrow>
   Term_match v s c ctx =
     (True, record_term ctx (indexOf s c) \<lparr>len = int (length c), gap = int (length v) - int (length c)\<rparr>)"
  by (cases "ctx_term ctx") (simp_all add: Term_match_def Context_get_def record_term_def Let_def)

lemma loop_false:
  "(\<And>g'. g \<le> g' \<Longrightarrow> g' \<le> tol \<Longrightarrow> \<not> sublist (candidate v g') s) \<Longrightarrow>
   Term_exec_loop v tol s g False ctx = (False, ctx)"
proof (induction "nat (tol + 1 - g)" arbitrary: g)
  case 0
  then have "\<not> g \<le> tol" by simp
  then show ?case by (rule loop_stop)
next
  case (Suc m)
  then have le: "g \<le> tol" by simp
  have no: "indexOf s (take (nat (int (length v) - g)) v) = - 1"
    using Suc.prems [of g] le by (simp add: indexOf_none candidate_def)
  have "Term_exec_loop v tol s (g + 1) False ctx = (False, ctx)"
    using Suc.hyps(2) Suc.prems by (intro Suc.hyps(1)) auto
  then show ?case by (simp add: loop_step [OF le] no)
qed

lemma loop_found:
  "g \<le> g0 \<Longrightarrow> g0 \<le> tol \<Longrightarrow> sublist (candidate v g0) s \<Longrightarrow>
   (\<And>g'. g \<le> g' \<Longrightarrow> g' < g0 \<Longrightarrow> \<not> sublist (candidate v g') s) \<Longrightarrow>
   Term_exec_loop v tol s g False ctx = Term_match v s (candidate v g0) ctx"
proof (induction "nat (g0 - g)" arbitrary: g)
  case 0
  then have eq: "g = g0" by simp
  have yes: "indexOf s (take (nat (int (length v) - g0)) v) \<noteq> - 1"
    using 0 by (simp add: indexOf_none candidate_def)
  show ?case unfolding eq using yes by (simp only: loop_step [OF \<open>g0 \<le> tol\<close>] candidate_def if_False)
next
  case (Suc m)
  then have lt: "g < g0" by simp
  then have le: "g \<le> tol" using Suc.prems by simp
  have no: "indexOf s (take (nat (int (length v) - g)) v) = - 1"
    using Suc.prems(4) [of g] lt by (simp add: indexOf_none candidate_def)
  have "Term_exec_loop v tol s (g + 1) False ctx = Term_match v s (candidate v g0) ctx"
    using Suc.hyps(2) Suc.prems lt by (intro Suc.hyps(1)) auto
  then show ?case by (simp add: loop_step [OF le] no)
qed

lemma first_occurrence_indexOf:
  assumes "first_occurrence c s k"
  shows "indexOf s c = int k"
proof -
  from assms have p: "prefix c (drop k s)" and least: "\<And>j. j < k \<Longrightarrow> \<not> prefix c (drop j s)"
    by (auto simp: first_occurrence_def)
  from p obtain zs where "drop k s = c @ zs" by (auto simp: prefix_def)
  then have "s = take k s @ c @ zs" by (metis append_take_drop_id)
  then have "sublist c s" unfolding sublist_def by blast
  then have ne: "indexOf s c \<noteq> - 1" by (simp add: indexOf_none)
  let ?i = "nat (indexOf s c)"
  from indexOf_first [OF ne] have pi: "prefix c (drop ?i s)"
    and li: "\<And>j. j < ?i \<Longrightarrow> \<not> prefix c (drop j s)" by auto
  have "?i = k" using p pi least li by (meson linorder_neqE_nat)
  moreover have "0 \<le> indexOf s c" using indexOf_ge [of s c] ne by arith
  ultimately show ?thesis by simp
qed

lemma exists_least_int:
  fixes P :: "int \<Rightarrow> bool"
  assumes "0 \<le> g" "P g"
  shows "\<exists>g0. 0 \<le> g0 \<and> g0 \<le> g \<and> P g0 \<and> (\<forall>g'. 0 \<le> g' \<and> g' < g0 \<longrightarrow> \<not> P g')"
proof -
  define Q where "Q m = P (int m)" for m
  have "Q (nat g)" using assms by (simp add: Q_def)
  then have a: "Q (LEAST m. Q m)" and b: "(LEAST m. Q m) \<le> nat g" and c: "\<And>m. m < (LEAST m. Q m) \<Longrightarrow> \<not> Q m"
    by (auto intro: LeastI Least_le dest: not_less_Least)
  show ?thesis
  proof (intro exI [of _ "int (LEAST m. Q m)"] conjI allI impI)
    show "P (int (LEAST m. Q m))" using a by (simp add: Q_def)
    show "int (LEAST m. Q m) \<le> g" using b assms by simp
    fix g' assume "0 \<le> g' \<and> g' < int (LEAST m. Q m)"
    then have "nat g' < (LEAST m. Q m)" "int (nat g') = g'" by auto
    then show "\<not> P g'" using c [of "nat g'"] by (simp add: Q_def)
  qed simp
qed


lemma sublist_indexOf: "sublist c s \<longleftrightarrow> indexOf s c \<noteq> - 1"
  by (simp add: indexOf_none)

lemma loop_cases:
  "Term_exec_loop v tol s g False ctx = (False, ctx) \<or>
   (\<exists>g0. g \<le> g0 \<and> g0 \<le> tol \<and> indexOf s (candidate v g0) \<noteq> - 1 \<and>
      Term_exec_loop v tol s g False ctx = Term_match v s (candidate v g0) ctx)"
proof (induction "nat (tol + 1 - g)" arbitrary: g)
  case 0
  then have "\<not> g \<le> tol" by simp
  then show ?case by (simp add: loop_stop)
next
  case (Suc m)
  then have le: "g \<le> tol" by simp
  show ?case
  proof (cases "indexOf s (candidate v g) = - 1")
    case True
    then have step: "Term_exec_loop v tol s g False ctx = Term_exec_loop v tol s (g + 1) False ctx"
      using le by (simp add: loop_step candidate_def)
    have "m = nat (tol + 1 - (g + 1))" using Suc.hyps(2) by simp
    from Suc.hyps(1) [OF this] show ?thesis
    proof
      assume "Term_exec_loop v tol s (g + 1) False ctx = (False, ctx)"
      then show ?thesis by (simp add: step)
    next
      assume "\<exists>g0. g + 1 \<le> g0 \<and> g0 \<le> tol \<and> indexOf s (candidate v g0) \<noteq> - 1 \<and>
        Term_exec_loop v tol s (g + 1) False ctx = Term_match v s (candidate v g0) ctx"
      then obtain g0 where "g + 1 \<le> g0" "g0 \<le> tol" "indexOf s (candidate v g0) \<noteq> - 1"
        "Term_exec_loop v tol s (g + 1) False ctx = Term_match v s (candidate v g0) ctx" by blast
      then have "g \<le> g0 \<and> g0 \<le> tol \<and> indexOf s (candidate v g0) \<noteq> - 1 \<and>
        Term_exec_loop v tol s g False ctx = Term_match v s (candidate v g0) ctx"
        by (simp add: step)
      then show ?thesis by blast
    qed
  next
    case False
    then have "Term_exec_loop v tol s g False ctx = Term_match v s (candidate v g) ctx"
      using le by (simp add: loop_step candidate_def)
    with False le show ?thesis by blast
  qed
qed

lemma Term_exec_cases:
  "exec (Term v tol) s ctx = (False, ctx) \<or>
   (\<exists>g. 0 \<le> g \<and> g \<le> tol \<and> indexOf s (candidate v g) \<noteq> - 1 \<and>
      exec (Term v tol) s ctx =
        (True, record_term ctx (indexOf s (candidate v g))
                 \<lparr>len = int (length (candidate v g)),
                   gap = int (length v) - int (length (candidate v g))\<rparr>))"
  using loop_cases [of v tol s 0 ctx] by (auto simp: Term_match_found)

lemma Term_exec_fst: "fst (exec (Term v tol) s ctx) = fst (exec (Term v tol) s ctx')"
proof -
  have "fst (Term_exec_loop v tol s g False ctx) = fst (Term_exec_loop v tol s g False ctx')" for g
  proof (induction "nat (tol + 1 - g)" arbitrary: g)
    case 0
    then have "\<not> g \<le> tol" by simp
    then show ?case by (simp add: loop_stop)
  next
    case (Suc m)
    then have le: "g \<le> tol" by simp
    have "m = nat (tol + 1 - (g + 1))" using Suc.hyps(2) by simp
    from Suc.hyps(1) [OF this] show ?case
      by (simp add: loop_step [OF le] Term_match_found)
  qed
  then show ?thesis by simp
qed

lemma exec_fst: "fst (exec n s ctx) = fst (exec n s ctx')"
proof (induction n arbitrary: ctx ctx')
  case (Term v tol)
  show ?case by (rule Term_exec_fst)
next
  case (Not_node n)
  from Not_node [of ctx ctx'] show ?case by (simp add: split_beta)
next
  case (Op t l r)
  from Op(1) [of ctx ctx'] Op(2) [of "snd (exec l s ctx)" "snd (exec l s ctx')"]
  show ?case by (simp add: split_beta)
qed

lemma Term_exec_False: "\<not> fst (exec (Term v tol) s ctx) \<Longrightarrow> exec (Term v tol) s ctx = (False, ctx)"
  using Term_exec_cases [of v tol s ctx] by auto

lemma candidate_length:
  "0 \<le> g \<Longrightarrow> g \<le> tolerance_of v \<Longrightarrow> int (length (candidate v g)) = int (length v) - g"
  using tolerance_of_le [of v] by (simp add: candidate_def)

lemma rbind_Some: "rbind m f = Some r \<Longrightarrow> \<exists>x. m = Some x"
  by (cases m) auto

lemma compile_add: "compile n it = Some r \<Longrightarrow> compile (n + k) it = Some r"
proof (cases "i_value it")
  case None
  assume c: "compile n it = Some r"
  with None obtain x where x: "parse_operand n True (i_input it) = Some x"
    by (auto simp: compile_def split: option.splits)
  from fuel_add [OF x, of k] c None x show ?thesis by (simp add: compile_def)
qed (simp add: compile_def)

lemma Interpreter_exec_add:
  "Interpreter_exec n s it = Some r \<Longrightarrow> Interpreter_exec (n + k) s it = Some r"
proof -
  assume e: "Interpreter_exec n s it = Some r"
  then obtain x where x: "compile n it = Some x"
    by (auto simp: Interpreter_exec_def Let_def dest: rbind_Some)
  from compile_add [OF x, of k] e x show ?thesis by (simp add: Interpreter_exec_def)
qed


lemma indexOf_empty: "indexOf s [] = 0"
  by (cases s) simp_all

lemma exec_empty_Term: "exec (Term [] 0) s ctx = (True, record_term ctx 0 \<lparr>len = 0, gap = 0\<rparr>)"
  by (simp add: loop_step indexOf_empty Term_match_found)

lemma loop_eof:
  "length (input st) \<le> pos st \<Longrightarrow> read_escaped_loop e esc acc st = (acc, st)"
  by (subst read_escaped_loop.simps)
     (simp add: InputStream_eof_def InputStream_peek_def charAt_def)

lemma loop_escaped:
  "pos st < length (input st) \<Longrightarrow>
   read_escaped_loop e True acc st =
     read_escaped_loop e False (acc @ [input st ! pos st]) (st\<lparr>pos := pos st + 1\<rparr>)"
  by (subst read_escaped_loop.simps)
     (simp add: InputStream_eof_def InputStream_peek_def InputStream_next_def charAt_def)

lemma loop_plain:
  "pos st < length (input st) \<Longrightarrow>
   read_escaped_loop e False acc st =
     (if input st ! pos st = CHR 0x5C then read_escaped_loop e True acc (st\<lparr>pos := pos st + 1\<rparr>)
      else if [input st ! pos st] = e then (acc, st\<lparr>pos := pos st + 1\<rparr>)
      else read_escaped_loop e False (acc @ [input st ! pos st]) (st\<lparr>pos := pos st + 1\<rparr>))"
  by (subst read_escaped_loop.simps)
     (simp add: InputStream_eof_def InputStream_peek_def InputStream_next_def charAt_def)

lemma read_escaped_loop_unescape:
  "read_escaped_loop [CHR 0x22] False acc \<lparr>pos = length pre, input = pre @ body\<rparr> =
     (acc @ fst (unescape body), \<lparr>pos = length pre + snd (unescape body), input = pre @ body\<rparr>)"
proof (induction body arbitrary: pre acc rule: unescape.induct)
  case 1
  show ?case by (simp add: loop_eof)
next
  case (2 c cs)
  show ?case
  proof (cases "c = CHR 0x5C")
    case bs: True
    show ?thesis
    proof (cases cs)
      case Nil
      then show ?thesis using bs by (simp add: loop_plain loop_eof)
    next
      case (Cons d ds)
      have IH: "read_escaped_loop [CHR 0x22] False (acc @ [d]) \<lparr>pos = length (pre @ [c, d]), input = (pre @ [c, d]) @ ds\<rparr> =
        ((acc @ [d]) @ fst (unescape ds), \<lparr>pos = length (pre @ [c, d]) + snd (unescape ds), input = (pre @ [c, d]) @ ds\<rparr>)"
        using "2.IH"(1) [OF bs Cons] .
      have n1: "(pre @ c # d # ds) ! length pre = c" by simp
      have n2: "(pre @ x # d # ds) ! Suc (length pre) = d" for x
        by (simp add: nth_append)
      show ?thesis using bs Cons IH
        by (simp add: loop_plain loop_escaped n1 n2 split_beta)
    qed
  next
    case nbs: False
    show ?thesis
    proof (cases "c = CHR 0x22")
      case True
      then show ?thesis by (simp add: loop_plain)
    next
      case False
      have IH: "read_escaped_loop [CHR 0x22] False (acc @ [c]) \<lparr>pos = length (pre @ [c]), input = (pre @ [c]) @ cs\<rparr> =
        ((acc @ [c]) @ fst (unescape cs), \<lparr>pos = length (pre @ [c]) + snd (unescape cs), input = (pre @ [c]) @ cs\<rparr>)"
        using "2.IH"(2) [OF nbs False] .
      show ?thesis using nbs False IH
        by (simp add: loop_plain split_beta)
    qed
  qed
qed

lemma read_while_stop:
  "\<not> p (InputStream_peek st) \<Longrightarrow> read_while_loop p acc st = (acc, st)"
  by (subst read_while_loop.simps) simp

lemma read_next_quoted:
  "read_next (new_TokenStream (CHR 0x22 # body)) =
     Inr (Some \<lparr>tok_type = ''term'', tok_value = Some (fst (unescape body))\<rparr>,
          \<lparr>current = None,
             ts_input = \<lparr>pos = 1 + snd (unescape body), input = CHR 0x22 # body\<rparr>\<rparr>)"
proof -
  have ws: "read_while is_ch_whitespace \<lparr>current = None, ts_input = \<lparr>pos = 0, input = CHR 0x22 # body\<rparr>\<rparr> =
      ([], \<lparr>current = None, ts_input = \<lparr>pos = 0, input = CHR 0x22 # body\<rparr>\<rparr>)"
    by (simp add: read_while_def read_while_stop
          InputStream_peek_def charAt_def is_ch_whitespace_def)
  have loop: "read_escaped_loop [CHR 0x22] False [] \<lparr>pos = Suc 0, input = CHR 0x22 # body\<rparr> =
      (fst (unescape body), \<lparr>pos = 1 + snd (unescape body), input = CHR 0x22 # body\<rparr>)"
    using read_escaped_loop_unescape [of "[]" "[CHR 0x22]" body] by simp
  show ?thesis
    by (simp add: read_next_def ws read_string_def read_escaped_def loop Let_def
          new_TokenStream_def new_InputStream_def InputStream_eof_def InputStream_peek_def
          InputStream_next_def charAt_def)
qed

lemma input_peek_current:
  "input_peek p = Inr (tok, p') \<Longrightarrow> current (p_input p') = tok \<and> is_lazy p' = is_lazy p"
  by (auto simp: input_peek_def TokenStream_peek_def split: option.splits sum.splits)

lemma input_peek_again:
  "input_peek p = Inr (Some t, p') \<Longrightarrow> input_peek p' = Inr (Some t, p')"
  by (auto simp: input_peek_def TokenStream_peek_def split: option.splits sum.splits)

lemma input_eof_peek: "input_peek p = Inr (tok, p') \<Longrightarrow> input_eof p = Inr (tok = None, p')"
  by (auto simp: input_peek_def input_eof_def TokenStream_eof_def split: sum.splits)

lemma lazy_operator_stops:
  assumes e: "parse_operand_expr n p1 = Some (Inr (e, p2))"
    and pk: "input_peek p2 = Inr (tok, p3)"
    and st: "ends_operand tok"
  shows "lazy_operator (Suc n) p1 = Some (Inr (e, p3))"
proof (cases tok)
  case None
  then show ?thesis using e input_eof_peek [OF pk] by (simp add: lazy_operator.simps(2))
next
  case (Some t)
  have again: "input_peek p3 = Inr (Some t, p3)" using pk Some by (auto dest: input_peek_again)
  show ?thesis using e input_eof_peek [OF pk] Some st again
    by (auto simp: lazy_operator.simps(2) is_op_def is_punc_def ends_operand_def)
qed

lemma lazy_operator_joins:
  assumes e: "parse_operand_expr n p1 = Some (Inr (e, p2))"
    and pk: "input_peek p2 = Inr (tok, p3)"
    and st: "\<not> ends_operand tok"
    and lz: "is_lazy p3 \<noteq> Some False"
    and r: "parse_operand n True (p3\<lparr>is_lazy := Some True\<rparr>) = Some (Inr (right, p4))"
  shows "lazy_operator (Suc n) p1 = Some (Inr (Op ''|'' e right, p4))"
proof -
  from st obtain t where Some: "tok = Some t" by (cases tok) (auto simp: ends_operand_def)
  have again: "input_peek p3 = Inr (Some t, p3)" using pk Some by (auto dest: input_peek_again)
  show ?thesis using e input_eof_peek [OF pk] Some st again lz r
    by (auto simp: lazy_operator.simps(2) is_op_def is_punc_def ends_operand_def Let_def)
qed

lemma parse_not_unfold:
  "input_next p = Inr (t0, p1) \<Longrightarrow>
   parse_not (n + 3) p =
     rbind (lazy_operator (Suc n) p1) (\<lambda>(v, p2). Some (Inr (Not_node v, p2)))"
  by (simp add: numeral_3_eq_3 parse_not.simps(2) parse_operand.simps(2))

lemma exec_abcd:
  "exec (new_Term ''abcd'') ''abc'' ctx = (True, record_term ctx 0 \<lparr>len = 3, gap = 1\<rparr>)"
  by (simp add: new_Term_def tolerance_of_def loop_step Term_match_found)

lemma exec_abc:
  "exec (new_Term ''abc'') ''abc'' ctx = (True, record_term ctx 0 \<lparr>len = 3, gap = 0\<rparr>)"
  by (simp add: new_Term_def tolerance_of_def loop_step Term_match_found)

section \<open>The flag \<open>is_lazy\<close>\<close>

lemma res_lazy_bind:
  "(\<And>x. m = Some (Inr x) \<Longrightarrow> res_lazy b (f x)) \<Longrightarrow> res_lazy b (rbind m f)"
  unfolding res_lazy_def
  apply (cases m)
   apply simp
  subgoal for a by (cases a) auto
  done

lemma res_lazy_Inr: "is_lazy p = Some b \<Longrightarrow> res_lazy b (Some (Inr (e, p)))"
  by (simp add: res_lazy_def)

lemma res_lazy_Inl: "res_lazy b (Some (Inl e))"
  by (simp add: res_lazy_def)

lemma input_peek_lazy: "input_peek p = Inr (t, p') \<Longrightarrow> is_lazy p' = is_lazy p"
  by (auto simp: input_peek_def split: sum.splits)

lemma input_next_lazy: "input_next p = Inr (t, p') \<Longrightarrow> is_lazy p' = is_lazy p"
  by (auto simp: input_next_def split: sum.splits)

lemma input_eof_lazy: "input_eof p = Inr (t, p') \<Longrightarrow> is_lazy p' = is_lazy p"
  by (auto simp: input_eof_def split: sum.splits)

lemma is_op_lazy: "is_op p = Inr (t, p') \<Longrightarrow> is_lazy p' = is_lazy p"
  by (auto simp: is_op_def split: sum.splits option.splits dest: input_peek_lazy)

lemma is_punc_lazy: "is_punc ch p = Inr (t, p') \<Longrightarrow> is_lazy p' = is_lazy p"
  by (auto simp: is_punc_def split: sum.splits option.splits dest: input_peek_lazy)

lemma is_not_lazy: "is_not p = Inr (t, p') \<Longrightarrow> is_lazy p' = is_lazy p"
  by (auto simp: is_not_def split: sum.splits option.splits dest: input_peek_lazy)

lemma is_term_lazy: "is_term p = Inr (t, p') \<Longrightarrow> is_lazy p' = is_lazy p"
  by (auto simp: is_term_def split: sum.splits option.splits dest: input_peek_lazy)

lemma skip_punc_lazy: "skip_punc ch p = Inr (t, p') \<Longrightarrow> is_lazy p' = is_lazy p"
  by (auto simp: skip_punc_def input_throw_def TokenStream_throw_def InputStream_throw_def
        split: sum.splits if_splits dest!: is_punc_lazy input_next_lazy)

lemma parse_term_lazy: "parse_term p = Inr (t, p') \<Longrightarrow> is_lazy p' = is_lazy p"
  by (auto simp: parse_term_def split: sum.splits option.splits dest: input_next_lazy)

lemma unexpected_Inl: "unexpected p \<noteq> Inr x"
  by (auto simp: unexpected_def input_throw_def TokenStream_throw_def InputStream_throw_def
        split: sum.splits)

lemma throw_lazy_eq: "throw_lazy p = Inl (MixedOperatorStyle (pos (ts_input (p_input p))), p)"
  by (simp add: throw_lazy_def input_throw_def TokenStream_throw_def InputStream_throw_def)

lemma res_lazy_parse_term: "is_lazy p = Some b \<Longrightarrow> res_lazy b (Some (parse_term p))"
  by (auto simp: res_lazy_def dest: parse_term_lazy)

lemma res_lazy_unexpected: "res_lazy b (Some (unexpected p))"
  by (simp add: res_lazy_def unexpected_Inl)

lemma rbind_Inr: "rbind m f = Some (Inr y) \<Longrightarrow> \<exists>x. m = Some (Inr x) \<and> f x = Some (Inr y)"
  apply (cases m)
   apply simp
  subgoal for a by (cases a) auto
  done

lemma parse_operator_Inr:
  assumes "parse_operator (Suc n) left prec p = Some (Inr (e, p'))"
  obtains (none) p1 where "is_op p = Inr (None, p1)" "e = left" "p' = p1"
  | (low) t p1 where "is_op p = Inr (Some t, p1)" "is_lazy p1 \<noteq> Some True"
      "e = left" "p' = p1\<lparr>is_lazy := Some False\<rparr>"
  | (high) t p1 nxt t' p3 operand p4 right p5 where
      "is_op p = Inr (Some t, p1)" "is_lazy p1 \<noteq> Some True"
      "precedence (tok_type t) = Some nxt" "prec < nxt"
      "input_next (p1\<lparr>is_lazy := Some False\<rparr>) = Inr (t', p3)"
      "parse_operand n False p3 = Some (Inr (operand, p4))"
      "parse_operator n operand nxt p4 = Some (Inr (right, p5))"
      "parse_operator n (Op (tok_type t) left right) prec p5 = Some (Inr (e, p'))"
proof -
  from assms [unfolded parse_operator.simps(2)] rbind_Inr
  obtain tok p1 where op: "is_op p = Inr (tok, p1)" and
    r: "(case tok of
         None \<Rightarrow> Some (Inr (left, p1))
       | Some t \<Rightarrow>
           if is_lazy p1 = Some True then Some (throw_lazy p1)
           else
             (let p2 = p1\<lparr>is_lazy := Some False\<rparr> in
              case precedence (tok_type t) of
                None \<Rightarrow> Some (Inr (left, p2))
              | Some nxt \<Rightarrow>
                  if nxt > prec then
                    rbind (Some (input_next p2)) (\<lambda>(t', p3).
                    rbind (parse_operand n False p3) (\<lambda>(operand, p4).
                    rbind (parse_operator n operand nxt p4) (\<lambda>(right, p5).
                      parse_operator n (Op (tok_type t) left right) prec p5)))
                  else Some (Inr (left, p2)))) = Some (Inr (e, p'))"
    by fastforce
  show ?thesis
  proof (cases tok)
    case None
    with r op show ?thesis by (auto intro: none)
  next
    case (Some t)
    with r have nl: "is_lazy p1 \<noteq> Some True" by (auto simp: throw_lazy_eq split: if_splits)
    let ?p2 = "p1\<lparr>is_lazy := Some False\<rparr>"
    from r Some nl have r2: "(case precedence (tok_type t) of
                None \<Rightarrow> Some (Inr (left, ?p2))
              | Some nxt \<Rightarrow>
                  if nxt > prec then
                    rbind (Some (input_next ?p2)) (\<lambda>(t', p3).
                    rbind (parse_operand n False p3) (\<lambda>(operand, p4).
                    rbind (parse_operator n operand nxt p4) (\<lambda>(right, p5).
                      parse_operator n (Op (tok_type t) left right) prec p5)))
                  else Some (Inr (left, ?p2))) = Some (Inr (e, p'))"
      by (simp add: Let_def)
    show ?thesis
    proof (cases "precedence (tok_type t)")
      case None
      with r2 op Some nl show ?thesis by (auto intro: low)
    next
      case (Some nxt) note pr = this
      show ?thesis
      proof (cases "nxt > prec")
        case False
        with r2 pr op \<open>tok = Some t\<close> nl show ?thesis by (auto intro: low)
      next
        case True
        with r2 pr have r3: "rbind (Some (input_next ?p2)) (\<lambda>(t', p3).
                    rbind (parse_operand n False p3) (\<lambda>(operand, p4).
                    rbind (parse_operator n operand nxt p4) (\<lambda>(right, p5).
                      parse_operator n (Op (tok_type t) left right) prec p5))) = Some (Inr (e, p'))"
          by simp
        from rbind_Inr [OF r3] obtain t' p3 where n3: "input_next ?p2 = Inr (t', p3)"
          and r4: "rbind (parse_operand n False p3) (\<lambda>(operand, p4).
                    rbind (parse_operator n operand nxt p4) (\<lambda>(right, p5).
                      parse_operator n (Op (tok_type t) left right) prec p5)) = Some (Inr (e, p'))"
          by auto
        from rbind_Inr [OF r4] obtain operand p4 where n4: "parse_operand n False p3 = Some (Inr (operand, p4))"
          and r5: "rbind (parse_operator n operand nxt p4) (\<lambda>(right, p5).
                      parse_operator n (Op (tok_type t) left right) prec p5) = Some (Inr (e, p'))"
          by auto
        from rbind_Inr [OF r5] obtain right p5 where n5: "parse_operator n operand nxt p4 = Some (Inr (right, p5))"
          and r6: "parse_operator n (Op (tok_type t) left right) prec p5 = Some (Inr (e, p'))"
          by auto
        show ?thesis using op \<open>tok = Some t\<close> nl pr True n3 n4 n5 r6 by (auto intro: high)
      qed
    qed
  qed
qed

lemma is_lazy_pinned_True:
  "(\<forall>po p. is_lazy p = Some True \<longrightarrow> res_lazy True (parse_operand n po p)) \<and>
   (\<forall>p. is_lazy p = Some True \<longrightarrow> res_lazy True (lazy_operator n p)) \<and>
   (\<forall>p. is_lazy p = Some True \<longrightarrow> res_lazy True (parse_operand_expr n p)) \<and>
   (\<forall>p. is_lazy p = Some True \<longrightarrow> res_lazy True (parse_operands n p)) \<and>
   (\<forall>l prec p. is_lazy p = Some True \<longrightarrow> res_lazy True (parse_operator n l prec p)) \<and>
   (\<forall>p. is_lazy p = Some True \<longrightarrow> res_lazy True (parse_not n p))"
proof (induction n)
  case 0
  show ?case by (simp add: res_lazy_def)
next
  case (Suc n)
  have R1: "\<And>po p. is_lazy p = Some True \<Longrightarrow> res_lazy True (parse_operand n po p)"
   and R2: "\<And>p. is_lazy p = Some True \<Longrightarrow> res_lazy True (lazy_operator n p)"
   and R3: "\<And>p. is_lazy p = Some True \<Longrightarrow> res_lazy True (parse_operand_expr n p)"
   and R4: "\<And>p. is_lazy p = Some True \<Longrightarrow> res_lazy True (parse_operands n p)"
   and R5: "\<And>l prec p. is_lazy p = Some True \<Longrightarrow> res_lazy True (parse_operator n l prec p)"
   and R6: "\<And>p. is_lazy p = Some True \<Longrightarrow> res_lazy True (parse_not n p)"
    using Suc by blast+
  have IH1: "is_lazy p = Some True \<longrightarrow> is_lazy p' = Some True"
    if "parse_operand n po p = Some (Inr (e, p'))" for po p e p'
    using R1 [of p po] that by (simp add: res_lazy_def)
  have IH3: "is_lazy p = Some True \<longrightarrow> is_lazy p' = Some True"
    if "parse_operand_expr n p = Some (Inr (e, p'))" for p e p'
    using R3 [of p] that by (simp add: res_lazy_def)
  have IH5: "is_lazy p = Some True \<longrightarrow> is_lazy p' = Some True"
    if "parse_operator n l prec p = Some (Inr (e, p'))" for l prec p e p'
    using R5 [of p l prec] that by (simp add: res_lazy_def)
  have a: "res_lazy True (parse_operand (Suc n) po p)" if "is_lazy p = Some True" for po p
    unfolding parse_operand.simps(2) using that
    by (auto intro!: res_lazy_bind R2 R5 dest!: IH1)
  have b: "res_lazy True (lazy_operator (Suc n) p)" if "is_lazy p = Some True" for p
    unfolding lazy_operator.simps(2) using that
    by (auto intro!: res_lazy_bind res_lazy_Inr res_lazy_Inl simp: Let_def throw_lazy_eq
             dest!: IH3 input_eof_lazy is_op_lazy is_punc_lazy IH1)
  have c: "res_lazy True (parse_operand_expr (Suc n) p)" if "is_lazy p = Some True" for p
    unfolding parse_operand_expr.simps(2) using that
    by (auto intro!: res_lazy_bind R6 R4 res_lazy_parse_term res_lazy_unexpected
             dest!: is_not_lazy is_punc_lazy is_term_lazy)
  have d: "res_lazy True (parse_operands (Suc n) p)" if "is_lazy p = Some True" for p
    unfolding parse_operands.simps(2) using that
    by (auto intro!: res_lazy_bind res_lazy_Inr dest!: skip_punc_lazy IH1)
  have e: "res_lazy True (parse_operator (Suc n) l prec p)" if "is_lazy p = Some True" for l prec p
    unfolding parse_operator.simps(2) using that
    by (auto intro!: res_lazy_bind res_lazy_Inr res_lazy_Inl R5 simp: Let_def throw_lazy_eq
             split: option.splits dest!: is_op_lazy input_next_lazy IH1 IH5)
  have f: "res_lazy True (parse_not (Suc n) p)" if "is_lazy p = Some True" for p
    unfolding parse_not.simps(2) using that
    by (auto intro!: res_lazy_bind res_lazy_Inr dest!: input_next_lazy IH1)
  show ?case using a b c d e f by blast
qed


lemma is_lazy_pinned_False:
  "(\<forall>po p. is_lazy p = Some False \<longrightarrow> res_lazy False (parse_operand n po p)) \<and>
   (\<forall>p. is_lazy p = Some False \<longrightarrow> res_lazy False (lazy_operator n p)) \<and>
   (\<forall>p. is_lazy p = Some False \<longrightarrow> res_lazy False (parse_operand_expr n p)) \<and>
   (\<forall>p. is_lazy p = Some False \<longrightarrow> res_lazy False (parse_operands n p)) \<and>
   (\<forall>l prec p. is_lazy p = Some False \<longrightarrow> res_lazy False (parse_operator n l prec p)) \<and>
   (\<forall>p. is_lazy p = Some False \<longrightarrow> res_lazy False (parse_not n p))"
proof (induction n)
  case 0
  show ?case by (simp add: res_lazy_def)
next
  case (Suc n)
  have R1: "\<And>po p. is_lazy p = Some False \<Longrightarrow> res_lazy False (parse_operand n po p)"
   and R2: "\<And>p. is_lazy p = Some False \<Longrightarrow> res_lazy False (lazy_operator n p)"
   and R3: "\<And>p. is_lazy p = Some False \<Longrightarrow> res_lazy False (parse_operand_expr n p)"
   and R4: "\<And>p. is_lazy p = Some False \<Longrightarrow> res_lazy False (parse_operands n p)"
   and R5: "\<And>l prec p. is_lazy p = Some False \<Longrightarrow> res_lazy False (parse_operator n l prec p)"
   and R6: "\<And>p. is_lazy p = Some False \<Longrightarrow> res_lazy False (parse_not n p)"
    using Suc by blast+
  have IH1: "is_lazy p = Some False \<longrightarrow> is_lazy p' = Some False"
    if "parse_operand n po p = Some (Inr (e, p'))" for po p e p'
    using R1 [of p po] that by (simp add: res_lazy_def)
  have IH3: "is_lazy p = Some False \<longrightarrow> is_lazy p' = Some False"
    if "parse_operand_expr n p = Some (Inr (e, p'))" for p e p'
    using R3 [of p] that by (simp add: res_lazy_def)
  have IH5: "is_lazy p = Some False \<longrightarrow> is_lazy p' = Some False"
    if "parse_operator n l prec p = Some (Inr (e, p'))" for l prec p e p'
    using R5 [of p l prec] that by (simp add: res_lazy_def)
  have a: "res_lazy False (parse_operand (Suc n) po p)" if "is_lazy p = Some False" for po p
    unfolding parse_operand.simps(2) using that
    by (auto intro!: res_lazy_bind R2 R5 dest!: IH1)
  have b: "res_lazy False (lazy_operator (Suc n) p)" if "is_lazy p = Some False" for p
    unfolding lazy_operator.simps(2) using that
    by (auto intro!: res_lazy_bind res_lazy_Inr res_lazy_Inl simp: Let_def throw_lazy_eq
             dest!: IH3 input_eof_lazy is_op_lazy is_punc_lazy IH1)
  have c: "res_lazy False (parse_operand_expr (Suc n) p)" if "is_lazy p = Some False" for p
    unfolding parse_operand_expr.simps(2) using that
    by (auto intro!: res_lazy_bind R6 R4 res_lazy_parse_term res_lazy_unexpected
             dest!: is_not_lazy is_punc_lazy is_term_lazy)
  have d: "res_lazy False (parse_operands (Suc n) p)" if "is_lazy p = Some False" for p
    unfolding parse_operands.simps(2) using that
    by (auto intro!: res_lazy_bind res_lazy_Inr dest!: skip_punc_lazy IH1)
  have e: "res_lazy False (parse_operator (Suc n) l prec p)" if lz: "is_lazy p = Some False" for l prec p
    unfolding res_lazy_def
  proof (intro allI impI)
    fix e p' assume "parse_operator (Suc n) l prec p = Some (Inr (e, p'))"
    then show "is_lazy p' = Some False"
    proof (cases rule: parse_operator_Inr)
      case (none p1)
      then show ?thesis using is_op_lazy [of p None p1] lz by simp
    next
      case (low t p1)
      then show ?thesis by simp
    next
      case (high t p1 nxt t' p3 operand p4 right p5)
      have "is_lazy p3 = Some False" using input_next_lazy [OF high(5)] by simp
      then have "is_lazy p4 = Some False" using IH1 [OF high(6)] by simp
      then have "is_lazy p5 = Some False" using IH5 [OF high(7)] by simp
      then show ?thesis using IH5 [OF high(8)] by simp
    qed
  qed
  have f: "res_lazy False (parse_not (Suc n) p)" if "is_lazy p = Some False" for p
    unfolding parse_not.simps(2) using that
    by (auto intro!: res_lazy_bind res_lazy_Inr dest!: input_next_lazy IH1)
  show ?case using a b c d e f by blast
qed

lemmas pinned_True_operand = is_lazy_pinned_True [THEN conjunct1, rule_format]
lemmas pinned_False_operand = is_lazy_pinned_False [THEN conjunct1, rule_format]

lemma is_lazy_pinned:
  assumes "is_lazy p = Some b" and "parse_operand n po p = Some (Inr (e, p'))"
  shows "is_lazy p' = Some b"
proof (cases b)
  case True
  with assms pinned_True_operand [of p n po] show ?thesis by (simp add: res_lazy_def)
next
  case False
  with assms pinned_False_operand [of p n po] show ?thesis by (simp add: res_lazy_def)
qed






lemma res_set_Inl: "res_set (Some (Inl e))"
  by (simp add: res_set_def)





lemma is_lazy_kept:
  "is_lazy p \<noteq> None \<Longrightarrow> parse_operand n po p = Some (Inr (e, p')) \<Longrightarrow> is_lazy p' \<noteq> None"
  using is_lazy_pinned [of p _ n po e p'] by (cases "is_lazy p") auto


section \<open>Quoted terms after a prefix\<close>


lemma read_while_spaces:
  "read_while_loop is_ch_whitespace acc
     \<lparr>pos = length pre, input = pre @ replicate k (CHR '' '') @ CHR 0x22 # body\<rparr> =
   (acc @ replicate k (CHR '' ''),
    \<lparr>pos = length pre + k, input = pre @ replicate k (CHR '' '') @ CHR 0x22 # body\<rparr>)"
proof (induction k arbitrary: pre acc)
  case 0
  show ?case
    by (subst read_while_loop.simps)
       (simp add: InputStream_eof_def InputStream_peek_def charAt_def is_ch_whitespace_def)
next
  case (Suc k)
  have IH: "read_while_loop is_ch_whitespace (acc @ '' '')
     \<lparr>pos = length (pre @ '' ''), input = (pre @ '' '') @ replicate k (CHR '' '') @ CHR 0x22 # body\<rparr> =
   ((acc @ '' '') @ replicate k (CHR '' ''),
    \<lparr>pos = length (pre @ '' '') + k, input = (pre @ '' '') @ replicate k (CHR '' '') @ CHR 0x22 # body\<rparr>)"
    by (rule Suc.IH)
  show ?case
    by (subst read_while_loop.simps)
       (use IH in \<open>simp add: InputStream_eof_def InputStream_peek_def InputStream_next_def
          charAt_def is_ch_whitespace_def replicate_append_same\<close>)
qed

lemma read_next_quoted_at:
  "read_next \<lparr>current = c,
      ts_input = \<lparr>pos = length pre, input = pre @ replicate k (CHR '' '') @ CHR 0x22 # body\<rparr>\<rparr> =
     Inr (Some \<lparr>tok_type = ''term'', tok_value = Some (fst (unescape body))\<rparr>,
          \<lparr>current = c,
             ts_input = \<lparr>pos = length pre + k + 1 + snd (unescape body),
                          input = pre @ replicate k (CHR '' '') @ CHR 0x22 # body\<rparr>\<rparr>)"
proof -
  let ?inp = "pre @ replicate k (CHR '' '') @ CHR 0x22 # body"
  have ws: "read_while is_ch_whitespace \<lparr>current = c, ts_input = \<lparr>pos = length pre, input = ?inp\<rparr>\<rparr> =
      (replicate k (CHR '' ''), \<lparr>current = c, ts_input = \<lparr>pos = length pre + k, input = ?inp\<rparr>\<rparr>)"
    using read_while_spaces [of "[]" pre k body] by (simp add: read_while_def)
  have at: "?inp ! (length pre + k) = CHR 0x22"
    by (simp add: nth_append)
  have len: "length pre + k < length ?inp" by simp
  have loop: "read_escaped_loop [CHR 0x22] False [] \<lparr>pos = Suc (length pre + k), input = ?inp\<rparr> =
      (fst (unescape body), \<lparr>pos = length pre + k + 1 + snd (unescape body), input = ?inp\<rparr>)"
    using read_escaped_loop_unescape [of "[]" "pre @ replicate k (CHR '' '') @ [CHR 0x22]" body]
    by simp
  show ?thesis
    unfolding read_next_def ws
    using at len loop
    by (simp add: read_string_def read_escaped_def Let_def
          InputStream_eof_def InputStream_peek_def InputStream_next_def charAt_def)
qed

section \<open>Claims\<close>

text \<open>
  C1. For every term value \<open>v\<close> of length \<open>n\<close>, with tolerance \<open>ceil(n/4)\<close>, and every
  subject \<open>s\<close> and context: \<open>Term.exec\<close> returns true exactly when, for some gap from 0
  to the tolerance, the value without its last \<open>gap\<close> characters occurs in \<open>s\<close>. At the
  smallest such gap it returns true and its only effect is to record the entry
  \<open>{length: n - gap, gap}\<close> at the offset of the candidate's first occurrence; when no
  gap matches it returns false and leaves the context as it was.
\<close>

theorem Term_exec_fuzzy:
  "(fst (exec (new_Term v) s ctx) \<longleftrightarrow>
      (\<exists>g. 0 \<le> g \<and> g \<le> \<lceil>real (length v) / 4\<rceil> \<and> sublist (candidate v g) s)) \<and>
   (\<forall>g k. 0 \<le> g \<and> g \<le> \<lceil>real (length v) / 4\<rceil> \<and> sublist (candidate v g) s \<and>
          (\<forall>g'. 0 \<le> g' \<and> g' < g \<longrightarrow> \<not> sublist (candidate v g') s) \<and>
          first_occurrence (candidate v g) s k \<longrightarrow>
          exec (new_Term v) s ctx =
            (True, record_term ctx (int k) \<lparr>len = int (length v) - g, gap = g\<rparr>)) \<and>
   ((\<forall>g. 0 \<le> g \<and> g \<le> \<lceil>real (length v) / 4\<rceil> \<longrightarrow> \<not> sublist (candidate v g) s) \<longrightarrow>
      exec (new_Term v) s ctx = (False, ctx))"
proof -
  let ?tol = "\<lceil>real (length v) / 4\<rceil>"
  have ex: "exec (new_Term v) s ctx = Term_exec_loop v ?tol s 0 False ctx"
    by (simp add: new_Term_def tolerance_of_ceiling)
  have found: "exec (new_Term v) s ctx =
      (True, record_term ctx (int k) \<lparr>len = int (length v) - g, gap = g\<rparr>)"
    if g: "0 \<le> g" "g \<le> ?tol" and sub: "sublist (candidate v g) s"
      and least: "\<And>g'. 0 \<le> g' \<Longrightarrow> g' < g \<Longrightarrow> \<not> sublist (candidate v g') s"
      and occ: "first_occurrence (candidate v g) s k" for g k
  proof -
    have gn: "g \<le> int (length v)" using g tolerance_of_le [of v] by (simp add: tolerance_of_ceiling)
    then have l: "int (length (candidate v g)) = int (length v) - g" using g by (simp add: candidate_def)
    have ne: "indexOf s (candidate v g) \<noteq> - 1" using sub by (simp add: indexOf_none)
    have "exec (new_Term v) s ctx = Term_match v s (candidate v g) ctx"
      unfolding ex using g sub least by (intro loop_found) auto
    then show ?thesis
      by (simp add: Term_match_found [OF ne] l first_occurrence_indexOf [OF occ])
  qed
  have none: "exec (new_Term v) s ctx = (False, ctx)"
    if "\<And>g. 0 \<le> g \<Longrightarrow> g \<le> ?tol \<Longrightarrow> \<not> sublist (candidate v g) s"
    unfolding ex using that by (intro loop_false) auto
  have iff: "fst (exec (new_Term v) s ctx) \<longleftrightarrow>
      (\<exists>g. 0 \<le> g \<and> g \<le> ?tol \<and> sublist (candidate v g) s)"
  proof
    assume "fst (exec (new_Term v) s ctx)"
    then show "\<exists>g. 0 \<le> g \<and> g \<le> ?tol \<and> sublist (candidate v g) s"
      using none by fastforce
  next
    assume "\<exists>g. 0 \<le> g \<and> g \<le> ?tol \<and> sublist (candidate v g) s"
    then obtain g where g: "0 \<le> g" "g \<le> ?tol \<and> sublist (candidate v g) s" by blast
    from exists_least_int [of g "\<lambda>g. g \<le> ?tol \<and> sublist (candidate v g) s", OF g]
    obtain g0 where g0: "0 \<le> g0" "g0 \<le> g" "g0 \<le> ?tol" "sublist (candidate v g0) s"
      and least: "\<And>g'. 0 \<le> g' \<Longrightarrow> g' < g0 \<Longrightarrow> \<not> (g' \<le> ?tol \<and> sublist (candidate v g') s)"
      by blast
    have least': "\<And>g'. 0 \<le> g' \<Longrightarrow> g' < g0 \<Longrightarrow> \<not> sublist (candidate v g') s"
      using least g0 by force
    have ne: "indexOf s (candidate v g0) \<noteq> - 1" using g0 by (simp add: indexOf_none)
    have "exec (new_Term v) s ctx = Term_match v s (candidate v g0) ctx"
      unfolding ex using g0 least' by (intro loop_found) auto
    then show "fst (exec (new_Term v) s ctx)" by (simp add: Term_match_found [OF ne])
  qed
  show ?thesis using iff found none by blast
qed

theorem Term_exec_fuzzy_witness:
  "fst (exec (new_Term ''abcd'') ''zabc'' new_Context) \<and>
   exec (new_Term ''abcd'') ''zabc'' new_Context =
     (True, record_term new_Context 1 \<lparr>len = 3, gap = 1\<rparr>) \<and>
   exec (new_Term ''abcd'') ''zzzz'' new_Context = (False, new_Context)"
proof -
  have tol: "\<lceil>real (length ''abcd'') / 4\<rceil> = 1" by simp
  have c0: "candidate ''abcd'' 0 = ''abcd''" and c1: "candidate ''abcd'' 1 = ''abc''"
    by (simp_all add: candidate_def)
  have cases: "g = 0 \<or> g = 1" if "0 \<le> g \<and> g \<le> 1" for g :: int using that by arith
  have s1: "sublist (candidate ''abcd'' 1) ''zabc''"
    by (simp add: c1 sublist_indexOf)
  have s0: "\<not> sublist (candidate ''abcd'' 0) ''zabc''"
    by (simp add: c0 sublist_indexOf)
  have least: "\<forall>g'. 0 \<le> g' \<and> g' < (1::int) \<longrightarrow> \<not> sublist (candidate ''abcd'' g') ''zabc''"
  proof (intro allI impI)
    fix g' :: int assume "0 \<le> g' \<and> g' < 1"
    then have "g' = 0" by arith
    then show "\<not> sublist (candidate ''abcd'' g') ''zabc''" using s0 by simp
  qed
  have occ: "first_occurrence (candidate ''abcd'' 1) ''zabc'' 1"
    by (simp add: c1 first_occurrence_def)
  have none: "\<forall>g. 0 \<le> g \<and> g \<le> \<lceil>real (length ''abcd'') / 4\<rceil> \<longrightarrow> \<not> sublist (candidate ''abcd'' g) ''zzzz''"
  proof (intro allI impI)
    fix g :: int assume "0 \<le> g \<and> g \<le> \<lceil>real (length ''abcd'') / 4\<rceil>"
    then have "g = 0 \<or> g = 1" using cases tol by simp
    then show "\<not> sublist (candidate ''abcd'' g) ''zzzz''"
      by (auto simp: c0 c1 sublist_indexOf)
  qed
  note T = Term_exec_fuzzy [of "''abcd''" "''zabc''" new_Context]
  note U = Term_exec_fuzzy [of "''abcd''" "''zzzz''" new_Context]
  have a: "fst (exec (new_Term ''abcd'') ''zabc'' new_Context)"
    using T s1 tol by (metis zero_le_one order_refl)
  have b: "exec (new_Term ''abcd'') ''zabc'' new_Context =
     (True, record_term new_Context 1 \<lparr>len = 3, gap = 1\<rparr>)"
  proof -
    have "0 \<le> (1::int) \<and> 1 \<le> \<lceil>real (length ''abcd'') / 4\<rceil> \<and> sublist (candidate ''abcd'' 1) ''zabc'' \<and>
          (\<forall>g'. 0 \<le> g' \<and> g' < (1::int) \<longrightarrow> \<not> sublist (candidate ''abcd'' g') ''zabc'') \<and>
          first_occurrence (candidate ''abcd'' 1) ''zabc'' 1"
      using s1 least occ tol by simp
    with T have "exec (new_Term ''abcd'') ''zabc'' new_Context =
       (True, record_term new_Context (int 1) \<lparr>len = int (length ''abcd'') - 1, gap = 1\<rparr>)"
      by blast
    then show ?thesis by simp
  qed
  have c: "exec (new_Term ''abcd'') ''zzzz'' new_Context = (False, new_Context)"
    using U none by blast
  show ?thesis using a b c by blast
qed

text \<open>
  C3. \<open>Op.exec\<close> runs both children, the right one on the context left by the left one,
  whatever either returns, and combines the two results with \<open>and\<close> for \<open>&\<close> and with
  \<open>or\<close> for \<open>|\<close>. In particular, when \<open>TermA\<close> fails and \<open>TermB\<close> matches,
  \<open>And(TermA, TermB)\<close> returns false and the context holds the entry of \<open>TermB\<close>'s match.
\<close>

theorem Op_exec_no_short_circuit:
  "snd (exec (Op t l r) s ctx) = snd (exec r s (snd (exec l s ctx))) \<and>
   fst (exec (Op ''&'' l r) s ctx) = (fst (exec l s ctx) \<and> fst (exec r s ctx)) \<and>
   fst (exec (Op ''|'' l r) s ctx) = (fst (exec l s ctx) \<or> fst (exec r s ctx)) \<and>
   (\<not> fst (exec (new_Term a) s ctx) \<and> fst (exec (new_Term b) s ctx) \<longrightarrow>
      (\<exists>g. 0 \<le> g \<and> g \<le> \<lceil>real (length b) / 4\<rceil> \<and> sublist (candidate b g) s \<and>
         exec (Op ''&'' (new_Term a) (new_Term b)) s ctx =
           (False, record_term ctx (indexOf s (candidate b g))
                     \<lparr>len = int (length b) - g, gap = g\<rparr>)))"
proof -
  have 1: "snd (exec (Op t l r) s ctx) = snd (exec r s (snd (exec l s ctx)))"
    by (simp add: split_beta)
  have r: "fst (exec r s (snd (exec l s ctx))) = fst (exec r s ctx)"
    by (rule exec_fst)
  have 2: "fst (exec (Op ''&'' l r) s ctx) = (fst (exec l s ctx) \<and> fst (exec r s ctx))"
    by (simp add: split_beta r)
  have 3: "fst (exec (Op ''|'' l r) s ctx) = (fst (exec l s ctx) \<or> fst (exec r s ctx))"
    by (simp add: split_beta r)
  have 4: "\<exists>g. 0 \<le> g \<and> g \<le> \<lceil>real (length b) / 4\<rceil> \<and> sublist (candidate b g) s \<and>
         exec (Op ''&'' (new_Term a) (new_Term b)) s ctx =
           (False, record_term ctx (indexOf s (candidate b g))
                     \<lparr>len = int (length b) - g, gap = g\<rparr>)"
    if A: "\<not> fst (exec (new_Term a) s ctx)" and B: "fst (exec (new_Term b) s ctx)"
  proof -
    have a: "exec (new_Term a) s ctx = (False, ctx)"
      using A unfolding new_Term_def by (rule Term_exec_False)
    from B Term_exec_cases [of b "tolerance_of b" s ctx]
    obtain g where g: "0 \<le> g" "g \<le> tolerance_of b" "indexOf s (candidate b g) \<noteq> - 1"
      and e: "exec (new_Term b) s ctx =
        (True, record_term ctx (indexOf s (candidate b g))
                 \<lparr>len = int (length (candidate b g)),
                   gap = int (length b) - int (length (candidate b g))\<rparr>)"
      by (auto simp: new_Term_def)
    have "exec (Op ''&'' (new_Term a) (new_Term b)) s ctx =
           (False, record_term ctx (indexOf s (candidate b g))
                     \<lparr>len = int (length b) - g, gap = g\<rparr>)"
      by (simp add: a e candidate_length [OF g(1,2)])
    with g show ?thesis by (auto simp: tolerance_of_ceiling sublist_indexOf)
  qed
  show ?thesis using 1 2 3 4 by blast
qed

theorem Op_exec_no_short_circuit_witness:
  "\<not> fst (exec (new_Term ''abcd'') ''zzz'' new_Context) \<and>
   fst (exec (new_Term ''zz'') ''zzz'' new_Context) \<and>
   (\<exists>g. 0 \<le> g \<and> g \<le> \<lceil>real (length ''zz'') / 4\<rceil> \<and> sublist (candidate ''zz'' g) ''zzz'' \<and>
     exec (Op ''&'' (new_Term ''abcd'') (new_Term ''zz'')) ''zzz'' new_Context =
       (False, record_term new_Context (indexOf ''zzz'' (candidate ''zz'' g))
                     \<lparr>len = int (length ''zz'') - g, gap = g\<rparr>))"
proof -
  have a: "\<not> fst (exec (new_Term ''abcd'') ''zzz'' new_Context)" by code_simp
  have b: "fst (exec (new_Term ''zz'') ''zzz'' new_Context)" by code_simp
  show ?thesis
    using a b Op_exec_no_short_circuit [of "''&''" "new_Term ''abcd''" "new_Term ''zz''" "''zzz''" new_Context "''abcd''" "''zz''"]
    by blast
qed



text \<open>
  C5. \<open>&\<close> has precedence 2 and \<open>|\<close> precedence 1, and operators of equal precedence
  group to the left: \<open>a & b | c\<close> compiles to the tree of \<open>(a & b) | c\<close>, \<open>a | b & c\<close> to
  \<open>a | (b & c)\<close>, \<open>a & b & c\<close> to \<open>(a & b) & c\<close>. A tree \<open>(A & B) | C\<close> evaluates to true on
  every subject where \<open>A\<close> and \<open>B\<close> match and \<open>C\<close> does not, and to the result of \<open>C\<close>
  alone on every subject where \<open>A\<close> does not match.
\<close>

theorem precedence_and_over_or:
  "precedence ''&'' = Some 2 \<and> precedence ''|'' = Some 1 \<and>
   compile (20 + k) (new_Interpreter ''a & b | c'') =
     Some (Inr (Op ''|'' (Op ''&'' (Term ''a'' 1) (Term ''b'' 1)) (Term ''c'' 1),
                compiled ''a & b | c'' 9 (Some False)
                  (Op ''|'' (Op ''&'' (Term ''a'' 1) (Term ''b'' 1)) (Term ''c'' 1)))) \<and>
   compile (20 + k) (new_Interpreter ''(a & b) | c'') =
     Some (Inr (Op ''|'' (Op ''&'' (Term ''a'' 1) (Term ''b'' 1)) (Term ''c'' 1),
                compiled ''(a & b) | c'' 11 (Some False)
                  (Op ''|'' (Op ''&'' (Term ''a'' 1) (Term ''b'' 1)) (Term ''c'' 1)))) \<and>
   compile (20 + k) (new_Interpreter ''a | b & c'') =
     Some (Inr (Op ''|'' (Term ''a'' 1) (Op ''&'' (Term ''b'' 1) (Term ''c'' 1)),
                compiled ''a | b & c'' 9 (Some False)
                  (Op ''|'' (Term ''a'' 1) (Op ''&'' (Term ''b'' 1) (Term ''c'' 1))))) \<and>
   compile (20 + k) (new_Interpreter ''a & b & c'') =
     Some (Inr (Op ''&'' (Op ''&'' (Term ''a'' 1) (Term ''b'' 1)) (Term ''c'' 1),
                compiled ''a & b & c'' 9 (Some False)
                  (Op ''&'' (Op ''&'' (Term ''a'' 1) (Term ''b'' 1)) (Term ''c'' 1)))) \<and>
   (fst (exec A s ctx) \<and> fst (exec B s ctx) \<and> \<not> fst (exec C s ctx) \<longrightarrow>
      fst (exec (Op ''|'' (Op ''&'' A B) C) s ctx)) \<and>
   (\<not> fst (exec A s ctx) \<longrightarrow>
      fst (exec (Op ''|'' (Op ''&'' A B) C) s ctx) = fst (exec C s ctx))"
proof -
  have 0: "precedence ''&'' = Some 2 \<and> precedence ''|'' = Some 1"
    by (simp add: precedence_def)
  have 1: "compile (20 + k) (new_Interpreter ''a & b | c'') =
     Some (Inr (Op ''|'' (Op ''&'' (Term ''a'' 1) (Term ''b'' 1)) (Term ''c'' 1),
                compiled ''a & b | c'' 9 (Some False)
                  (Op ''|'' (Op ''&'' (Term ''a'' 1) (Term ''b'' 1)) (Term ''c'' 1))))"
    by (rule compile_add) code_simp
  have 2: "compile (20 + k) (new_Interpreter ''(a & b) | c'') =
     Some (Inr (Op ''|'' (Op ''&'' (Term ''a'' 1) (Term ''b'' 1)) (Term ''c'' 1),
                compiled ''(a & b) | c'' 11 (Some False)
                  (Op ''|'' (Op ''&'' (Term ''a'' 1) (Term ''b'' 1)) (Term ''c'' 1))))"
    by (rule compile_add) code_simp
  have 3: "compile (20 + k) (new_Interpreter ''a | b & c'') =
     Some (Inr (Op ''|'' (Term ''a'' 1) (Op ''&'' (Term ''b'' 1) (Term ''c'' 1)),
                compiled ''a | b & c'' 9 (Some False)
                  (Op ''|'' (Term ''a'' 1) (Op ''&'' (Term ''b'' 1) (Term ''c'' 1)))))"
    by (rule compile_add) code_simp
  have 4: "compile (20 + k) (new_Interpreter ''a & b & c'') =
     Some (Inr (Op ''&'' (Op ''&'' (Term ''a'' 1) (Term ''b'' 1)) (Term ''c'' 1),
                compiled ''a & b & c'' 9 (Some False)
                  (Op ''&'' (Op ''&'' (Term ''a'' 1) (Term ''b'' 1)) (Term ''c'' 1))))"
    by (rule compile_add) code_simp
  have c: "fst (exec C s (snd (exec (Op ''&'' A B) s ctx))) = fst (exec C s ctx)"
    and b: "fst (exec B s (snd (exec A s ctx))) = fst (exec B s ctx)"
    by (rule exec_fst)+
  have e: "fst (exec (Op ''|'' (Op ''&'' A B) C) s ctx) =
      (fst (exec A s ctx) \<and> fst (exec B s ctx) \<or> fst (exec C s ctx))"
    using b c by (simp add: split_beta)
  show ?thesis using 0 1 2 3 4 e by blast
qed

theorem precedence_and_over_or_witness:
  "fst (exec (new_Term ''abcd'') ''abcd efgh'' new_Context) \<and>
   fst (exec (new_Term ''efgh'') ''abcd efgh'' new_Context) \<and>
   \<not> fst (exec (new_Term ''wxyz'') ''abcd efgh'' new_Context) \<and>
   fst (exec (Op ''|'' (Op ''&'' (new_Term ''abcd'') (new_Term ''efgh'')) (new_Term ''wxyz''))
          ''abcd efgh'' new_Context) \<and>
   \<not> fst (exec (new_Term ''wxyz'') ''efgh'' new_Context) \<and>
   fst (exec (Op ''|'' (Op ''&'' (new_Term ''wxyz'') (new_Term ''abcd'')) (new_Term ''efgh''))
          ''efgh'' new_Context) = fst (exec (new_Term ''efgh'') ''efgh'' new_Context)"
proof -
  have a: "fst (exec (new_Term ''abcd'') ''abcd efgh'' new_Context)" by code_simp
  have b: "fst (exec (new_Term ''efgh'') ''abcd efgh'' new_Context)" by code_simp
  have c: "\<not> fst (exec (new_Term ''wxyz'') ''abcd efgh'' new_Context)" by code_simp
  have d: "\<not> fst (exec (new_Term ''wxyz'') ''efgh'' new_Context)" by code_simp
  show ?thesis
    using a b c d
      precedence_and_over_or [of 0 "new_Term ''abcd''" "''abcd efgh''" new_Context
        "new_Term ''efgh''" "new_Term ''wxyz''"]
      precedence_and_over_or [of 0 "new_Term ''wxyz''" "''efgh''" new_Context
        "new_Term ''abcd''" "new_Term ''efgh''"]
    by blast
qed

text \<open>
  C6. When \<open>compile\<close> succeeds with a root node, \<open>exec\<close> returns a context: the one left
  by evaluating the root on the subject from a new, empty context, with \<open>success\<close> set to
  the result of that evaluation. \<open>exec\<close> raises an error only when \<open>compile\<close> raises it,
  and the same one.
\<close>

theorem Interpreter_exec_spec:
  "(\<forall>tree it'. compile fuel it = Some (Inr (tree, it')) \<longrightarrow>
      Interpreter_exec fuel s it =
        Some (Inr ((snd (exec tree s new_Context))
                     \<lparr>ctx_success := Some (fst (exec tree s new_Context))\<rparr>, it'))) \<and>
   (\<forall>e. Interpreter_exec fuel s it = Some (Inl e) \<longleftrightarrow> compile fuel it = Some (Inl e)) \<and>
   (Interpreter_exec fuel s it = None \<longleftrightarrow> compile fuel it = None)"
proof (cases "compile fuel it")
  case None
  then show ?thesis by (simp add: Interpreter_exec_def)
next
  case (Some r)
  then show ?thesis
    by (cases r) (auto simp: Interpreter_exec_def split_beta)
qed

theorem Interpreter_exec_spec_witness:
  "compile 20 (new_Interpreter ''abcd | !xy'') =
     Some (Inr (Op ''|'' (Term ''abcd'' 1) (Not_node (Term ''xy'' 1)),
                compiled ''abcd | !xy'' 10 (Some False)
                  (Op ''|'' (Term ''abcd'' 1) (Not_node (Term ''xy'' 1))))) \<and>
   Interpreter_exec 20 ''an abc'' (new_Interpreter ''abcd | !xy'') =
     Some (Inr ((snd (exec (Op ''|'' (Term ''abcd'' 1) (Not_node (Term ''xy'' 1))) ''an abc'' new_Context))
                  \<lparr>ctx_success := Some (fst (exec (Op ''|'' (Term ''abcd'' 1) (Not_node (Term ''xy'' 1))) ''an abc'' new_Context))\<rparr>,
                compiled ''abcd | !xy'' 10 (Some False)
                  (Op ''|'' (Term ''abcd'' 1) (Not_node (Term ''xy'' 1)))))"
proof -
  have c: "compile 20 (new_Interpreter ''abcd | !xy'') =
     Some (Inr (Op ''|'' (Term ''abcd'' 1) (Not_node (Term ''xy'' 1)),
                compiled ''abcd | !xy'' 10 (Some False)
                  (Op ''|'' (Term ''abcd'' 1) (Not_node (Term ''xy'' 1)))))"
    by code_simp
  show ?thesis
    using c Interpreter_exec_spec [of 20 "new_Interpreter ''abcd | !xy''" "''an abc''"]
    by blast
qed

text \<open>
  C9, as the code has it. Once a call of \<open>compile\<close> has returned a tree, the tree is
  stored: every later \<open>compile\<close> returns the same tree and leaves the interpreter, with
  its parser and token stream, as it is, even with no fuel at all, that is without a single
  call of the parser; and every later \<open>exec\<close> evaluates that tree, again leaving the
  interpreter as it is.
\<close>

theorem compile_idempotent:
  "compile fuel it = Some (Inr (tree, it')) \<longrightarrow>
     i_value it' = Some tree \<and>
     compile fuel' it' = Some (Inr (tree, it')) \<and>
     compile 0 it' = Some (Inr (tree, it')) \<and>
     (\<exists>ctx. Interpreter_exec 0 s it' = Some (Inr (ctx, it')))"
proof
  assume c: "compile fuel it = Some (Inr (tree, it'))"
  have v: "i_value it' = Some tree"
  proof (cases "i_value it")
    case None
    with c show ?thesis
      by (auto simp: compile_def split: option.splits sum.splits)
  next
    case (Some v)
    with c show ?thesis by (auto simp: compile_def)
  qed
  then have "\<And>n. compile n it' = Some (Inr (tree, it'))" by (simp add: compile_def)
  then show "i_value it' = Some tree \<and>
     compile fuel' it' = Some (Inr (tree, it')) \<and>
     compile 0 it' = Some (Inr (tree, it')) \<and>
     (\<exists>ctx. Interpreter_exec 0 s it' = Some (Inr (ctx, it')))"
    using v by (simp add: Interpreter_exec_def split_beta)
qed

theorem compile_idempotent_witness:
  "compile 20 (new_Interpreter ''a & b'') =
     Some (Inr (Op ''&'' (Term ''a'' 1) (Term ''b'' 1),
                compiled ''a & b'' 5 (Some False) (Op ''&'' (Term ''a'' 1) (Term ''b'' 1)))) \<and>
   compile 0 (compiled ''a & b'' 5 (Some False) (Op ''&'' (Term ''a'' 1) (Term ''b'' 1))) =
     Some (Inr (Op ''&'' (Term ''a'' 1) (Term ''b'' 1),
                compiled ''a & b'' 5 (Some False) (Op ''&'' (Term ''a'' 1) (Term ''b'' 1))))"
proof -
  have c: "compile 20 (new_Interpreter ''a & b'') =
     Some (Inr (Op ''&'' (Term ''a'' 1) (Term ''b'' 1),
                compiled ''a & b'' 5 (Some False) (Op ''&'' (Term ''a'' 1) (Term ''b'' 1))))"
    by code_simp
  show ?thesis
    using c compile_idempotent [of 20 "new_Interpreter ''a & b''" "Op ''&'' (Term ''a'' 1) (Term ''b'' 1)"
       "compiled ''a & b'' 5 (Some False) (Op ''&'' (Term ''a'' 1) (Term ''b'' 1))" 0 "''x''"]
    by blast
qed

text \<open>
  Without the first call returning a tree, the query is parsed more than once: the first
  \<open>compile\<close> of \<open>a & b c\<close> throws at position 7 with the token \<open>c\<close> read and no tree
  stored, and the second \<open>compile\<close> parses from there and returns and stores the term \<open>c\<close>.
\<close>

theorem compile_idempotent_counterexample:
  "compile 20 (new_Interpreter ''a & b c'') =
     Some (Inl (MixedOperatorStyle 7,
                failed ''a & b c'' 7 (Some \<lparr>tok_type = ''term'', tok_value = Some ''c''\<rparr>) (Some False))) \<and>
   compile 20 (failed ''a & b c'' 7 (Some \<lparr>tok_type = ''term'', tok_value = Some ''c''\<rparr>) (Some False)) =
     Some (Inr (Term ''c'' 1, compiled ''a & b c'' 7 (Some False) (Term ''c'' 1)))"
  by code_simp

text \<open>
  C8. Wherever a double quote is the next character of the input after any number of
  spaces, the lexer reads one term token: its value is what follows the quote up to the
  first double quote not preceded by a backslash, or up to the end of the input, where a
  backslash is dropped and the character after it is taken as it is; the closing quote is
  consumed and is not part of the value. The six characters \<open>"a\"b"\<close> give the value
  \<open>a"b\<close> and the six characters \<open>"a\\b"\<close> the value \<open>a\b\<close>, each read to its end, with no
  token after it. The query \<open>!abc | "defg ghij"\<close> compiles to the negation of \<open>abc\<close>, or the
  term \<open>defg ghij\<close>.
\<close>

theorem read_quoted_term:
  "read_next \<lparr>current = c,
      ts_input = \<lparr>pos = length pre, input = pre @ replicate j (CHR '' '') @ CHR 0x22 # body\<rparr>\<rparr> =
     Inr (Some \<lparr>tok_type = ''term'', tok_value = Some (fst (unescape body))\<rparr>,
          \<lparr>current = c,
             ts_input = \<lparr>pos = length pre + j + 1 + snd (unescape body),
                          input = pre @ replicate j (CHR '' '') @ CHR 0x22 # body\<rparr>\<rparr>) \<and>
   read_next (new_TokenStream [CHR 0x22, CHR ''a'', CHR 0x5C, CHR 0x22, CHR ''b'', CHR 0x22]) =
     Inr (Some \<lparr>tok_type = ''term'', tok_value = Some [CHR ''a'', CHR 0x22, CHR ''b'']\<rparr>,
          \<lparr>current = None,
             ts_input = \<lparr>pos = 6,
               input = [CHR 0x22, CHR ''a'', CHR 0x5C, CHR 0x22, CHR ''b'', CHR 0x22]\<rparr>\<rparr>) \<and>
   read_next \<lparr>current = None,
       ts_input = \<lparr>pos = 6,
         input = [CHR 0x22, CHR ''a'', CHR 0x5C, CHR 0x22, CHR ''b'', CHR 0x22]\<rparr>\<rparr> =
     Inr (None,
          \<lparr>current = None,
             ts_input = \<lparr>pos = 6,
               input = [CHR 0x22, CHR ''a'', CHR 0x5C, CHR 0x22, CHR ''b'', CHR 0x22]\<rparr>\<rparr>) \<and>
   read_next (new_TokenStream [CHR 0x22, CHR ''a'', CHR 0x5C, CHR 0x5C, CHR ''b'', CHR 0x22]) =
     Inr (Some \<lparr>tok_type = ''term'', tok_value = Some [CHR ''a'', CHR 0x5C, CHR ''b'']\<rparr>,
          \<lparr>current = None,
             ts_input = \<lparr>pos = 6,
               input = [CHR 0x22, CHR ''a'', CHR 0x5C, CHR 0x5C, CHR ''b'', CHR 0x22]\<rparr>\<rparr>) \<and>
   read_next \<lparr>current = None,
       ts_input = \<lparr>pos = 6,
         input = [CHR 0x22, CHR ''a'', CHR 0x5C, CHR 0x5C, CHR ''b'', CHR 0x22]\<rparr>\<rparr> =
     Inr (None,
          \<lparr>current = None,
             ts_input = \<lparr>pos = 6,
               input = [CHR 0x22, CHR ''a'', CHR 0x5C, CHR 0x5C, CHR ''b'', CHR 0x22]\<rparr>\<rparr>) \<and>
   compile (20 + k) (new_Interpreter demo_query) =
     Some (Inr (Op ''|'' (Not_node (Term ''abc'' 1)) (Term ''defg ghij'' 3),
                compiled demo_query 18 (Some False)
                  (Op ''|'' (Not_node (Term ''abc'' 1)) (Term ''defg ghij'' 3))))"
proof -
  have 1: "read_next (new_TokenStream [CHR 0x22, CHR ''a'', CHR 0x5C, CHR 0x22, CHR ''b'', CHR 0x22]) =
     Inr (Some \<lparr>tok_type = ''term'', tok_value = Some [CHR ''a'', CHR 0x22, CHR ''b'']\<rparr>,
          \<lparr>current = None,
             ts_input = \<lparr>pos = 6,
               input = [CHR 0x22, CHR ''a'', CHR 0x5C, CHR 0x22, CHR ''b'', CHR 0x22]\<rparr>\<rparr>)"
    by code_simp
  have 2: "read_next \<lparr>current = None,
       ts_input = \<lparr>pos = 6,
         input = [CHR 0x22, CHR ''a'', CHR 0x5C, CHR 0x22, CHR ''b'', CHR 0x22]\<rparr>\<rparr> =
     Inr (None,
          \<lparr>current = None,
             ts_input = \<lparr>pos = 6,
               input = [CHR 0x22, CHR ''a'', CHR 0x5C, CHR 0x22, CHR ''b'', CHR 0x22]\<rparr>\<rparr>)"
    by code_simp
  have 3: "read_next (new_TokenStream [CHR 0x22, CHR ''a'', CHR 0x5C, CHR 0x5C, CHR ''b'', CHR 0x22]) =
     Inr (Some \<lparr>tok_type = ''term'', tok_value = Some [CHR ''a'', CHR 0x5C, CHR ''b'']\<rparr>,
          \<lparr>current = None,
             ts_input = \<lparr>pos = 6,
               input = [CHR 0x22, CHR ''a'', CHR 0x5C, CHR 0x5C, CHR ''b'', CHR 0x22]\<rparr>\<rparr>)"
    by code_simp
  have 4: "read_next \<lparr>current = None,
       ts_input = \<lparr>pos = 6,
         input = [CHR 0x22, CHR ''a'', CHR 0x5C, CHR 0x5C, CHR ''b'', CHR 0x22]\<rparr>\<rparr> =
     Inr (None,
          \<lparr>current = None,
             ts_input = \<lparr>pos = 6,
               input = [CHR 0x22, CHR ''a'', CHR 0x5C, CHR 0x5C, CHR ''b'', CHR 0x22]\<rparr>\<rparr>)"
    by code_simp
  have 5: "compile (20 + k) (new_Interpreter demo_query) =
     Some (Inr (Op ''|'' (Not_node (Term ''abc'' 1)) (Term ''defg ghij'' 3),
                compiled demo_query 18 (Some False)
                  (Op ''|'' (Not_node (Term ''abc'' 1)) (Term ''defg ghij'' 3))))"
    by (rule compile_add) code_simp
  show ?thesis
    by (intro conjI) (rule read_next_quoted_at 1 2 3 4 5)+
qed

theorem read_quoted_term_witness:
  "read_next \<lparr>current = None, ts_input = \<lparr>pos = 6, input = demo_query\<rparr>\<rparr> =
     Inr (Some \<lparr>tok_type = ''term'', tok_value = Some ''defg ghij''\<rparr>,
          \<lparr>current = None, ts_input = \<lparr>pos = 18, input = demo_query\<rparr>\<rparr>)"
proof -
  have q: "demo_query =
      ''!abc |'' @ replicate 1 (CHR '' '') @ CHR 0x22 # (''defg ghij'' @ [CHR 0x22])"
    by (simp add: demo_query_def)
  have u: "unescape (''defg ghij'' @ [CHR 0x22]) = (''defg ghij'', 10)"
    by simp
  have l: "length ''!abc |'' = 6"
    by simp
  have "read_next \<lparr>current = None,
      ts_input = \<lparr>pos = length ''!abc |'',
        input = ''!abc |'' @ replicate 1 (CHR '' '') @ CHR 0x22 # (''defg ghij'' @ [CHR 0x22])\<rparr>\<rparr> =
     Inr (Some \<lparr>tok_type = ''term'',
                tok_value = Some (fst (unescape (''defg ghij'' @ [CHR 0x22])))\<rparr>,
          \<lparr>current = None,
             ts_input = \<lparr>pos = length ''!abc |'' + 1 + 1 + snd (unescape (''defg ghij'' @ [CHR 0x22])),
               input = ''!abc |'' @ replicate 1 (CHR '' '') @ CHR 0x22 # (''defg ghij'' @ [CHR 0x22])\<rparr>\<rparr>)"
    using read_quoted_term [of None "''!abc |''" 1 "''defg ghij'' @ [CHR 0x22]" 0]
    by (rule conjunct1)
  then show ?thesis
    unfolding q [symmetric] u l by simp
qed

text \<open>
  C10. The query made of two double quotes compiles to the term with the empty value,
  whose tolerance is 0. This term evaluates to true on every subject and records the entry
  \<open>{length: 0, gap: 0}\<close> at offset 0; so \<open>exec\<close> on this query returns, for every subject, a
  context with \<open>success\<close> true and that entry.
\<close>

theorem empty_term_matches_everything:
  "compile (20 + k) (new_Interpreter [CHR 0x22, CHR 0x22]) =
     Some (Inr (Term [] 0, compiled [CHR 0x22, CHR 0x22] 2 None (Term [] 0))) \<and>
   new_Term [] = Term [] 0 \<and>
   exec (Term [] 0) s ctx = (True, record_term ctx 0 \<lparr>len = 0, gap = 0\<rparr>) \<and>
   Interpreter_exec (20 + k) s (new_Interpreter [CHR 0x22, CHR 0x22]) =
     Some (Inr (\<lparr>ctx_term = Some (Map.empty(0 \<mapsto> \<lparr>len = 0, gap = 0\<rparr>)), ctx_success = Some True\<rparr>,
                compiled [CHR 0x22, CHR 0x22] 2 None (Term [] 0)))"
proof -
  have 1: "compile (20 + k) (new_Interpreter [CHR 0x22, CHR 0x22]) =
     Some (Inr (Term [] 0, compiled [CHR 0x22, CHR 0x22] 2 None (Term [] 0)))"
    by (rule compile_add) code_simp
  have 2: "new_Term [] = Term [] 0" by (simp add: new_Term_def tolerance_of_def)
  have 3: "Interpreter_exec (20 + k) s (new_Interpreter [CHR 0x22, CHR 0x22]) =
     Some (Inr (\<lparr>ctx_term = Some (Map.empty(0 \<mapsto> \<lparr>len = 0, gap = 0\<rparr>)), ctx_success = Some True\<rparr>,
                compiled [CHR 0x22, CHR 0x22] 2 None (Term [] 0)))"
    by (simp add: Interpreter_exec_def 1 exec_empty_Term record_term_def new_Context_def
          del: exec.simps)
  show ?thesis using 1 2 3 exec_empty_Term by blast
qed

theorem empty_term_matches_everything_witness:
  "Interpreter_exec 20 ''any subject'' (new_Interpreter [CHR 0x22, CHR 0x22]) =
     Some (Inr (\<lparr>ctx_term = Some (Map.empty(0 \<mapsto> \<lparr>len = 0, gap = 0\<rparr>)), ctx_success = Some True\<rparr>,
                compiled [CHR 0x22, CHR 0x22] 2 None (Term [] 0)))"
  using empty_term_matches_everything [of 0 "''any subject''" new_Context] by simp

text \<open>
  C2. The claim is that an entry recorded at an offset is kept when a later term matches
  at the same offset. \<open>Term.match\<close> assigns the entry whatever is there: on the subject
  \<open>abc\<close>, the term \<open>abcd\<close> records \<open>{length: 3, gap: 1}\<close> at offset 0, the term \<open>abc\<close> then
  replaces it by \<open>{length: 3, gap: 0}\<close>, and the context returned for the query
  \<open>abcd | abc\<close> holds the second entry. \<open>Term.test\<close>, on the same context and subject,
  keeps the first entry.
\<close>

theorem later_match_overwrites:
  "exec (new_Term ''abcd'') ''abc'' new_Context =
     (True, \<lparr>ctx_term = Some (Map.empty(0 \<mapsto> \<lparr>len = 3, gap = 1\<rparr>)), ctx_success = None\<rparr>) \<and>
   exec (new_Term ''abc'') ''abc''
      \<lparr>ctx_term = Some (Map.empty(0 \<mapsto> \<lparr>len = 3, gap = 1\<rparr>)), ctx_success = None\<rparr> =
     (True, \<lparr>ctx_term = Some (Map.empty(0 \<mapsto> \<lparr>len = 3, gap = 0\<rparr>)), ctx_success = None\<rparr>) \<and>
   Interpreter_exec 20 ''abc'' (new_Interpreter ''abcd | abc'') =
     Some (Inr (\<lparr>ctx_term = Some (Map.empty(0 \<mapsto> \<lparr>len = 3, gap = 0\<rparr>)), ctx_success = Some True\<rparr>,
                compiled ''abcd | abc'' 10 (Some False)
                  (Op ''|'' (Term ''abcd'' 1) (Term ''abc'' 1)))) \<and>
   Term_test ''abc'' ''abc'' ''abc''
      \<lparr>ctx_term = Some (Map.empty(0 \<mapsto> \<lparr>len = 3, gap = 1\<rparr>)), ctx_success = None\<rparr> =
     (True, \<lparr>ctx_term = Some (Map.empty(0 \<mapsto> \<lparr>len = 3, gap = 1\<rparr>)), ctx_success = None\<rparr>)"
proof -
  have 4: "Term_test ''abc'' ''abc'' ''abc''
      \<lparr>ctx_term = Some (Map.empty(0 \<mapsto> \<lparr>len = 3, gap = 1\<rparr>)), ctx_success = None\<rparr> =
     (True, \<lparr>ctx_term = Some (Map.empty(0 \<mapsto> \<lparr>len = 3, gap = 1\<rparr>)), ctx_success = None\<rparr>)"
    by (simp add: Term_test_def)
  have c: "compile 20 (new_Interpreter ''abcd | abc'') =
     Some (Inr (Op ''|'' (new_Term ''abcd'') (new_Term ''abc''),
                compiled ''abcd | abc'' 10 (Some False)
                  (Op ''|'' (Term ''abcd'' 1) (Term ''abc'' 1))))"
    by code_simp
  have 1: "exec (new_Term ''abcd'') ''abc'' new_Context =
     (True, \<lparr>ctx_term = Some (Map.empty(0 \<mapsto> \<lparr>len = 3, gap = 1\<rparr>)), ctx_success = None\<rparr>)"
    by (simp add: exec_abcd record_term_def new_Context_def del: exec.simps)
  have 2: "exec (new_Term ''abc'') ''abc''
      \<lparr>ctx_term = Some (Map.empty(0 \<mapsto> \<lparr>len = 3, gap = 1\<rparr>)), ctx_success = None\<rparr> =
     (True, \<lparr>ctx_term = Some (Map.empty(0 \<mapsto> \<lparr>len = 3, gap = 0\<rparr>)), ctx_success = None\<rparr>)"
    by (simp add: exec_abc record_term_def del: exec.simps)
  have 3: "Interpreter_exec 20 ''abc'' (new_Interpreter ''abcd | abc'') =
     Some (Inr (\<lparr>ctx_term = Some (Map.empty(0 \<mapsto> \<lparr>len = 3, gap = 0\<rparr>)), ctx_success = Some True\<rparr>,
                compiled ''abcd | abc'' 10 (Some False)
                  (Op ''|'' (Term ''abcd'' 1) (Term ''abc'' 1))))"
  proof -
    have "exec (Op ''|'' (new_Term ''abcd'') (new_Term ''abc'')) ''abc'' new_Context =
       (True, \<lparr>ctx_term = Some (Map.empty(0 \<mapsto> \<lparr>len = 3, gap = 0\<rparr>)), ctx_success = None\<rparr>)"
      by (subst exec.simps(3)) (simp add: 1 2 del: exec.simps)
    then show ?thesis
      by (simp add: Interpreter_exec_def c del: exec.simps)
  qed
  show ?thesis
    by (intro conjI) (rule 1 2 3 4)+
qed

text \<open>
  C7, as the code has it. What follows \<open>!\<close> is parsed by \<open>parse_operand(false)\<close>: one
  primary operand and, when another operand follows it directly, the implicit \<open>|\<close> with
  what follows. When the token after the primary is \<open>&\<close>, \<open>|\<close>, \<open>)\<close> or the end of the
  input, the negation holds that primary alone and the token is left unread for the
  caller: no explicit operator is consumed, and \<open>!a & b\<close>, \<open>!a | b\<close> negate \<open>a\<close> only. When
  another operand follows directly, the negation holds the implicit \<open>|\<close> of the primary
  and what follows: \<open>!a b\<close> is the negation of \<open>a | b\<close>.
\<close>

theorem not_takes_operand_false:
  "(input_next p = Inr (t0, p1) \<and> parse_operand_expr n p1 = Some (Inr (e, p2)) \<and>
    input_peek p2 = Inr (tok, p3) \<longrightarrow>
      (ends_operand tok \<longrightarrow>
         parse_not (n + 3) p = Some (Inr (Not_node e, p3)) \<and> current (p_input p3) = tok) \<and>
      (\<not> ends_operand tok \<and> is_lazy p3 \<noteq> Some False \<longrightarrow>
         (\<forall>right p4. parse_operand n True (p3\<lparr>is_lazy := Some True\<rparr>) = Some (Inr (right, p4)) \<longrightarrow>
            parse_not (n + 3) p = Some (Inr (Not_node (Op ''|'' e right), p4))))) \<and>
   compile (20 + k) (new_Interpreter ''!a & b'') =
     Some (Inr (Op ''&'' (Not_node (Term ''a'' 1)) (Term ''b'' 1),
                compiled ''!a & b'' 6 (Some False)
                  (Op ''&'' (Not_node (Term ''a'' 1)) (Term ''b'' 1)))) \<and>
   compile (20 + k) (new_Interpreter ''!a | b'') =
     Some (Inr (Op ''|'' (Not_node (Term ''a'' 1)) (Term ''b'' 1),
                compiled ''!a | b'' 6 (Some False)
                  (Op ''|'' (Not_node (Term ''a'' 1)) (Term ''b'' 1)))) \<and>
   compile (20 + k) (new_Interpreter ''!a b'') =
     Some (Inr (Not_node (Op ''|'' (Term ''a'' 1) (Term ''b'' 1)),
                compiled ''!a b'' 4 (Some True)
                  (Not_node (Op ''|'' (Term ''a'' 1) (Term ''b'' 1)))))"
proof -
  have 1: "parse_not (n + 3) p = Some (Inr (Not_node e, p3)) \<and> current (p_input p3) = tok"
    if "input_next p = Inr (t0, p1)" "parse_operand_expr n p1 = Some (Inr (e, p2))"
      "input_peek p2 = Inr (tok, p3)" "ends_operand tok"
    using that lazy_operator_stops [of n p1 e p2 tok p3] input_peek_current [of p2 tok p3]
    by (simp add: parse_not_unfold)
  have 2: "parse_not (n + 3) p = Some (Inr (Not_node (Op ''|'' e right), p4))"
    if "input_next p = Inr (t0, p1)" "parse_operand_expr n p1 = Some (Inr (e, p2))"
      "input_peek p2 = Inr (tok, p3)" "\<not> ends_operand tok" "is_lazy p3 \<noteq> Some False"
      "parse_operand n True (p3\<lparr>is_lazy := Some True\<rparr>) = Some (Inr (right, p4))" for right p4
    using that lazy_operator_joins [of n p1 e p2 tok p3 right p4]
    by (simp add: parse_not_unfold)
  have 3: "compile (20 + k) (new_Interpreter ''!a & b'') =
     Some (Inr (Op ''&'' (Not_node (Term ''a'' 1)) (Term ''b'' 1),
                compiled ''!a & b'' 6 (Some False)
                  (Op ''&'' (Not_node (Term ''a'' 1)) (Term ''b'' 1))))"
    by (rule compile_add) code_simp
  have 4: "compile (20 + k) (new_Interpreter ''!a | b'') =
     Some (Inr (Op ''|'' (Not_node (Term ''a'' 1)) (Term ''b'' 1),
                compiled ''!a | b'' 6 (Some False)
                  (Op ''|'' (Not_node (Term ''a'' 1)) (Term ''b'' 1))))"
    by (rule compile_add) code_simp
  have 5: "compile (20 + k) (new_Interpreter ''!a b'') =
     Some (Inr (Not_node (Op ''|'' (Term ''a'' 1) (Term ''b'' 1)),
                compiled ''!a b'' 4 (Some True)
                  (Not_node (Op ''|'' (Term ''a'' 1) (Term ''b'' 1)))))"
    by (rule compile_add) code_simp
  show ?thesis using 1 2 3 4 5 by blast
qed

theorem not_takes_operand_false_counterexample:
  "compile 20 (new_Interpreter ''!a b'') =
     Some (Inr (Not_node (Op ''|'' (Term ''a'' 1) (Term ''b'' 1)),
                compiled ''!a b'' 4 (Some True)
                  (Not_node (Op ''|'' (Term ''a'' 1) (Term ''b'' 1)))))"
  by code_simp

theorem not_takes_operand_false_witness:
  "parse_not 9 (parser_at ''!a & b'' 1 (Some \<lparr>tok_type = ''!'', tok_value = None\<rparr>) None) =
     Some (Inr (Not_node (Term ''a'' 1),
                parser_at ''!a & b'' 4 (Some \<lparr>tok_type = ''&'', tok_value = None\<rparr>) None)) \<and>
   parse_not 9 (parser_at ''!a b'' 1 (Some \<lparr>tok_type = ''!'', tok_value = None\<rparr>) None) =
     Some (Inr (Not_node (Op ''|'' (Term ''a'' 1) (Term ''b'' 1)),
                parser_at ''!a b'' 4 None (Some True)))"
proof -
  let ?bang = "\<lparr>tok_type = ''!'', tok_value = None\<rparr>"
  let ?amp = "\<lparr>tok_type = ''&'', tok_value = None\<rparr>"
  let ?b = "\<lparr>tok_type = ''term'', tok_value = Some ''b''\<rparr>"
  have a1: "input_next (parser_at ''!a & b'' 1 (Some ?bang) None) =
      Inr (Some ?bang, parser_at ''!a & b'' 1 None None)" by code_simp
  have a2: "parse_operand_expr 6 (parser_at ''!a & b'' 1 None None) =
      Some (Inr (Term ''a'' 1, parser_at ''!a & b'' 2 None None))" by code_simp
  have a3: "input_peek (parser_at ''!a & b'' 2 None None) =
      Inr (Some ?amp, parser_at ''!a & b'' 4 (Some ?amp) None)" by code_simp
  have a4: "ends_operand (Some ?amp)" by (simp add: ends_operand_def)
  have b1: "input_next (parser_at ''!a b'' 1 (Some ?bang) None) =
      Inr (Some ?bang, parser_at ''!a b'' 1 None None)" by code_simp
  have b2: "parse_operand_expr 6 (parser_at ''!a b'' 1 None None) =
      Some (Inr (Term ''a'' 1, parser_at ''!a b'' 2 None None))" by code_simp
  have b3: "input_peek (parser_at ''!a b'' 2 None None) =
      Inr (Some ?b, parser_at ''!a b'' 4 (Some ?b) None)" by code_simp
  have b4: "\<not> ends_operand (Some ?b)" by (simp add: ends_operand_def)
  have b5: "is_lazy (parser_at ''!a b'' 4 (Some ?b) None) \<noteq> Some False"
    by (simp add: parser_at_def)
  have b6: "parse_operand 6 True ((parser_at ''!a b'' 4 (Some ?b) None)\<lparr>is_lazy := Some True\<rparr>) =
      Some (Inr (Term ''b'' 1, parser_at ''!a b'' 4 None (Some True)))" by code_simp
  have A: "parse_not (6 + 3) (parser_at ''!a & b'' 1 (Some ?bang) None) =
     Some (Inr (Not_node (Term ''a'' 1), parser_at ''!a & b'' 4 (Some ?amp) None))"
    using a1 a2 a3 a4
      not_takes_operand_false [of "parser_at ''!a & b'' 1 (Some ?bang) None" "Some ?bang"
        "parser_at ''!a & b'' 1 None None" 6 "Term ''a'' 1" "parser_at ''!a & b'' 2 None None"
        "Some ?amp" "parser_at ''!a & b'' 4 (Some ?amp) None" 0]
    by blast
  have B: "parse_not (6 + 3) (parser_at ''!a b'' 1 (Some ?bang) None) =
     Some (Inr (Not_node (Op ''|'' (Term ''a'' 1) (Term ''b'' 1)), parser_at ''!a b'' 4 None (Some True)))"
    using b1 b2 b3 b4 b5 b6
      not_takes_operand_false [of "parser_at ''!a b'' 1 (Some ?bang) None" "Some ?bang"
        "parser_at ''!a b'' 1 None None" 6 "Term ''a'' 1" "parser_at ''!a b'' 2 None None"
        "Some ?b" "parser_at ''!a b'' 4 (Some ?b) None" 0]
    by blast
  show ?thesis using A B by simp
qed

end
